theory Spec2Isabelle
  imports Main "HOL-Library.Signed_Division"
begin

section \<open>AmgXSolver: communicator topology and data redistribution\<close>

text \<open>
  A shallow embedding of \<^verbatim>\<open>src/linalg/AmgXSolver.cpp\<close>. C++ \<^verbatim>\<open>int\<close>, \<^verbatim>\<open>HYPRE_Int\<close> and
  \<^verbatim>\<open>int64_t\<close> values are modelled as \<^typ>\<open>int\<close>: signed overflow is undefined behaviour
  in C++, so the model describes the executions in which no arithmetic leaves the range
  of its type. Array positions are \<^typ>\<open>nat\<close>. Matrix and vector entries
  (\<^verbatim>\<open>double\<close>) are only ever copied, never computed with, so they are a type variable.
  Calls into MPI and into the AmgX engine are modelled by their documented effect on an
  explicit state.
\<close>

subsection \<open>Instance state and \<^verbatim>\<open>finalize\<close>\<close>

text \<open>
  What C++ leaves undefined is an error value of the model: a division by zero, an array
  access outside its bounds, a read of an array slot that was never written; and a
  message longer than the buffer that receives it is an error of MPI.
\<close>

datatype error = DivisionByZero | OutOfBounds | Uninitialized | Truncated

datatype comm = globalCpuWorld | localCpuWorld | devWorld | gpuWorld

datatype handle = solver | AmgXA | AmgXP | AmgXRHS | rsrc | cfg

text \<open>
  The fields of an \<^verbatim>\<open>AmgXSolver\<close> object that \<^verbatim>\<open>setDeviceIDs\<close> and \<^verbatim>\<open>finalize\<close> read or
  write, the static
  instance counter \<^verbatim>\<open>count\<close>, and the part of the outside world its calls act on: the
  communicators that have not been freed, the engine handles that have not been
  destroyed, whether the engine library is initialised, the erroneous calls of
  \<^verbatim>\<open>MPI_Comm_free\<close>, and what has been printed.
\<close>

record AmgXSolver =
  isInitialized :: bool
  localSize :: int
  myLocalRank :: int
  devID :: int
  gpuProc :: int
  count :: int
  comms :: "comm set"
  handles :: "handle set"
  amgx_plugins :: bool
  amgx_library :: bool
  mpi_errors :: "comm list"
  printed :: "string list"

definition printf :: "string \<Rightarrow> AmgXSolver \<Rightarrow> AmgXSolver" where
  "printf msg s = s\<lparr>printed := printed s @ [msg]\<rparr>"

definition destroy :: "handle \<Rightarrow> AmgXSolver \<Rightarrow> AmgXSolver" where
  "destroy h s = s\<lparr>handles := handles s - {h}\<rparr>"

text \<open>
  \<^verbatim>\<open>MPI_Comm_free\<close> releases a communicator and sets the handle to \<^verbatim>\<open>MPI_COMM_NULL\<close>. Called
  on a handle that is not a live communicator it is an error of MPI, fatal under the
  default error handler; the source does not look at the return code. The model records
  the erroneous call and goes on.
\<close>

definition MPI_Comm_free :: "comm \<Rightarrow> AmgXSolver \<Rightarrow> AmgXSolver" where
  "MPI_Comm_free c s =
     (if c \<in> comms s then s\<lparr>comms := comms s - {c}\<rparr>
      else s\<lparr>mpi_errors := mpi_errors s @ [c]\<rparr>)"

definition not_initialized_msg :: string where
  "not_initialized_msg =
     ''This AmgXWrapper has not been initialized. Please initialize it before finalization.''"

text \<open>
  \<^verbatim>\<open>AmgXSolver::finalize\<close>, statement by statement. \<open>MPI_UNDEFINED\<close> is the constant
  of \<^verbatim>\<open>mpi.h\<close>, taken as a parameter. The test of \<^verbatim>\<open>isInitialized\<close> only prints: it has
  no \<^verbatim>\<open>return\<close>, so the statements after it run in either case. The call
  \<^verbatim>\<open>MPI_Comm_free(&gpuWorld)\<close> is commented out in the source and so is absent here.
\<close>

definition finalize_gpu :: "AmgXSolver \<Rightarrow> AmgXSolver" where
  "finalize_gpu s =
     (let s1 = destroy solver s;
          s2 = destroy AmgXA s1;
          s3 = destroy AmgXP s2;
          s4 = destroy AmgXRHS s3
      in if count s4 = 1
         then (let s5 = destroy rsrc s4;
                   s6 = destroy cfg s5;
                   s7 = s6\<lparr>amgx_plugins := False\<rparr>
               in s7\<lparr>amgx_library := False\<rparr>)
         else destroy cfg s4)"

definition finalize :: "int \<Rightarrow> AmgXSolver \<Rightarrow> AmgXSolver" where
  "finalize MPI_UNDEFINED s =
     (let s1 = (if \<not> isInitialized s then printf not_initialized_msg s else s);
          s2 = (if gpuProc s1 = 0 then finalize_gpu s1 else s1);
          s3 = s2\<lparr>gpuProc := MPI_UNDEFINED\<rparr>;
          s4 = MPI_Comm_free globalCpuWorld s3;
          s5 = MPI_Comm_free localCpuWorld s4;
          s6 = MPI_Comm_free devWorld s5;
          s7 = s6\<lparr>count := count s6 - 1\<rparr>
      in s7\<lparr>isInitialized := False\<rparr>)"

text \<open>
  An instance that was initialised as a device-group leader and has been finalized once:
  nothing is left alive but the solve-participant communicator, and \<^verbatim>\<open>gpuProc\<close> holds
  \<open>MPI_UNDEFINED\<close> (here \<open>-32766\<close>, its value in MPICH).
\<close>

definition finalized_instance :: AmgXSolver where
  "finalized_instance =
     \<lparr>isInitialized = False, localSize = 1, myLocalRank = 0, devID = 0,
      gpuProc = - 32766, count = 0, comms = {gpuWorld},
      handles = {}, amgx_plugins = False, amgx_library = False, mpi_errors = [],
      printed = []\<rparr>"

text \<open>A live leader instance, the only one of its process.\<close>

definition leader_instance :: AmgXSolver where
  "leader_instance =
     \<lparr>isInitialized = True, localSize = 1, myLocalRank = 0, devID = 0,
      gpuProc = 0, count = 1,
      comms = {globalCpuWorld, localCpuWorld, devWorld, gpuWorld},
      handles = {solver, AmgXA, AmgXP, AmgXRHS, rsrc, cfg},
      amgx_plugins = True, amgx_library = True, mpi_errors = [], printed = []\<rparr>"

subsection \<open>\<^verbatim>\<open>setDeviceIDs\<close>\<close>

definition more_devices_msg :: string where
  "more_devices_msg =
     ''CUDA devices on the node %s are more than the MPI processes launched. Only %d CUDA devices will be used.''"

text \<open>
  \<^verbatim>\<open>AmgXSolver::setDeviceIDs\<close>. C++ division truncates towards zero (\<open>sdiv\<close>, \<open>smod\<close>)
  and is undefined for a zero divisor. \<^verbatim>\<open>gpuProc\<close> is only ever set to 0 here: a process
  that is not the first of its group keeps the value it had.
\<close>

definition setDeviceIDs :: "int \<Rightarrow> AmgXSolver \<Rightarrow> error + AmgXSolver" where
  "setDeviceIDs nDevs s =
     (if nDevs = localSize s then
        Inr (s\<lparr>devID := myLocalRank s, gpuProc := 0\<rparr>)
      else if nDevs > localSize s then
        Inr ((printf more_devices_msg s)\<lparr>devID := myLocalRank s, gpuProc := 0\<rparr>)
      else if nDevs = 0 then Inl DivisionByZero
      else
        (let nBasic = localSize s sdiv nDevs;
             nRemain = localSize s smod nDevs
         in if myLocalRank s < (nBasic + 1) * nRemain then
              (if nBasic + 1 = 0 then Inl DivisionByZero
               else
                 (let s1 = s\<lparr>devID := myLocalRank s sdiv (nBasic + 1)\<rparr>
                  in Inr (if myLocalRank s1 smod (nBasic + 1) = 0
                          then s1\<lparr>gpuProc := 0\<rparr> else s1)))
            else
              (if nBasic = 0 then Inl DivisionByZero
               else
                 (let s1 = s\<lparr>devID :=
                             (myLocalRank s - (nBasic + 1) * nRemain) sdiv nBasic + nRemain\<rparr>
                  in Inr (if (myLocalRank s1 - (nBasic + 1) * nRemain) smod nBasic = 0
                          then s1\<lparr>gpuProc := 0\<rparr> else s1)))))"

text \<open>
  The grouping in the words of the specification: \<open>D\<close> contiguous groups, the first
  \<open>P mod D\<close> of size \<open>P div D + 1\<close>, the others of size \<open>P div D\<close>; a group starts where
  the groups before it end.
\<close>

definition group_size :: "int \<Rightarrow> int \<Rightarrow> int \<Rightarrow> int" where
  "group_size P D d = (if d < P mod D then P div D + 1 else P div D)"

definition group_start :: "int \<Rightarrow> int \<Rightarrow> int \<Rightarrow> int" where
  "group_start P D d = sum_list (map (group_size P D) [0..d - 1])"

text \<open>
  The state of the process with node-local rank \<open>r\<close> among \<open>P\<close> when \<^verbatim>\<open>initMPIcomms\<close>
  calls \<^verbatim>\<open>setDeviceIDs\<close>: \<^verbatim>\<open>gpuProc\<close> still holds \<open>MPI_UNDEFINED\<close>.
\<close>

definition rank_state :: "int \<Rightarrow> int \<Rightarrow> AmgXSolver" where
  "rank_state P r =
     \<lparr>isInitialized = False, localSize = P, myLocalRank = r, devID = 0,
      gpuProc = - 32766, count = 1, comms = {globalCpuWorld, localCpuWorld},
      handles = {}, amgx_plugins = False, amgx_library = False, mpi_errors = [],
      printed = []\<rparr>"

subsection \<open>The row partition table of \<^verbatim>\<open>setA\<close>\<close>

text \<open>
  \<^verbatim>\<open>loc_row_len\<close> is the absolute difference of the two row-partition offsets of a
  process; \<^verbatim>\<open>MPI_Allreduce\<close> with \<^verbatim>\<open>MPI_SUM\<close> over the device group makes \<^verbatim>\<open>nDevRows\<close>,
  which the leader reports as \<^verbatim>\<open>local_rows\<close>.
\<close>

definition loc_row_len :: "int \<times> int \<Rightarrow> int" where
  "loc_row_len RowPart = \<bar>snd RowPart - fst RowPart\<bar>"

definition nDevRows :: "(int \<times> int) list \<Rightarrow> int" where
  "nDevRows parts = sum_list (map loc_row_len parts)"

text \<open>
  \<^verbatim>\<open>MPI_Allgather\<close> of one value per rank into a buffer, from position \<open>off\<close> on: rank
  \<open>i\<close>'s value lands at \<open>off + i\<close>. The buffer is large enough at the call modelled
  here.
\<close>

definition MPI_Allgather_into :: "nat \<Rightarrow> 'a list \<Rightarrow> 'a list \<Rightarrow> 'a list" where
  "MPI_Allgather_into off vals buf = take off buf @ vals @ drop (off + length vals) buf"

text \<open>The fixup loop \<^verbatim>\<open>for (i = 1; i < rowPart.Size(); ++i) rowPart[i] += rowPart[i-1]\<close>.\<close>

definition rowPart_fixup :: "int list \<Rightarrow> int list" where
  "rowPart_fixup rowPart =
     fold (\<lambda>i rp. rp[i := rp ! i + rp ! (i - 1)]) [1..<length rowPart] rowPart"

text \<open>
  The table built on each solve participant, from the \<^verbatim>\<open>local_rows\<close> of all of them
  (\<open>gpuWorldSize\<close> is their number).
\<close>

definition build_rowPart :: "int list \<Rightarrow> int list" where
  "build_rowPart local_rows =
     (let gpuWorldSize = length local_rows;
          rowPart = replicate (gpuWorldSize + 1) 0
      in rowPart_fixup (MPI_Allgather_into 1 local_rows rowPart))"

subsection \<open>\<^verbatim>\<open>GatherArray\<close> and \<^verbatim>\<open>ScatterArray\<close>\<close>

text \<open>
  A collective call is modelled from the point of view of the whole group: the list
  \<open>inArrs\<close> holds the array each rank passes, in rank order, rank 0 being the root.
  \<open>write_at off xs buf\<close> is the buffer after \<open>xs\<close> has been stored from position \<open>off\<close>.
\<close>

definition write_at :: "nat \<Rightarrow> 'a list \<Rightarrow> 'a list \<Rightarrow> 'a list" where
  "write_at off xs buf = take off buf @ xs @ drop (off + length xs) buf"

text \<open>
  \<^verbatim>\<open>MPI_Gatherv\<close> at the root: the message of rank \<open>i\<close> is stored at \<open>displs[i]\<close>. The
  root reads one count and one displacement per rank; a message whose length is not the
  count announced for it, or that does not fit into the receive buffer, is an error.
\<close>

fun MPI_Gatherv :: "'a list list \<Rightarrow> 'a list \<Rightarrow> nat list \<Rightarrow> nat list \<Rightarrow> error + 'a list" where
  "MPI_Gatherv [] recvbuf recvcounts displs = Inr recvbuf"
| "MPI_Gatherv (sendbuf # sendbufs) recvbuf (c # recvcounts) (d # displs) =
     (if length sendbuf \<noteq> c then Inl Truncated
      else if length recvbuf < d + c then Inl OutOfBounds
      else MPI_Gatherv sendbufs (write_at d sendbuf recvbuf) recvcounts displs)"
| "MPI_Gatherv (sendbuf # sendbufs) recvbuf recvcounts displs = Inl OutOfBounds"

text \<open>
  \<^verbatim>\<open>MPI_Scatterv\<close>: rank \<open>i\<close> receives \<open>sendcounts[i]\<close> elements of the root's buffer,
  from \<open>displs[i]\<close> on, into the front of its receive buffer.
\<close>

fun MPI_Scatterv :: "'a list \<Rightarrow> nat list \<Rightarrow> nat list \<Rightarrow> 'a list list \<Rightarrow> error + 'a list list" where
  "MPI_Scatterv sendbuf sendcounts displs [] = Inr []"
| "MPI_Scatterv sendbuf (c # sendcounts) (d # displs) (recvbuf # recvbufs) =
     (if length sendbuf < d + c then Inl OutOfBounds
      else if length recvbuf < c then Inl Truncated
      else (case MPI_Scatterv sendbuf sendcounts displs recvbufs of
              Inl e \<Rightarrow> Inl e
            | Inr rest \<Rightarrow> Inr (write_at 0 (take c (drop d sendbuf)) recvbuf # rest)))"
| "MPI_Scatterv sendbuf sendcounts displs (recvbuf # recvbufs) = Inl OutOfBounds"

text \<open>The loop \<^verbatim>\<open>for (i = 1; i < MPI_SZ; ++i) Adisp[i] = Adisp[i-1] + Apart[i-1]\<close>.\<close>

definition Adisp_loop :: "nat \<Rightarrow> nat list \<Rightarrow> nat list \<Rightarrow> nat list" where
  "Adisp_loop MPI_SZ Apart Adisp =
     fold (\<lambda>i A. A[i := A ! (i - 1) + Apart ! (i - 1)]) [1..<MPI_SZ] Adisp"

text \<open>
  \<^verbatim>\<open>AmgXSolver::GatherArray\<close> (the overload that hands the descriptor back): the lengths
  are exchanged into \<open>Apart\<close>, the displacements are their running sums, and the arrays
  are gathered into the root's \<open>outArr\<close>. The result is the root's buffer and the
  descriptor. The arrays \<open>Apart\<close> and \<open>Adisp\<close> are the caller's; a write or read outside
  them is an error.
\<close>

definition GatherArray ::
  "'a list list \<Rightarrow> 'a list \<Rightarrow> nat \<Rightarrow> nat list \<Rightarrow> nat list
     \<Rightarrow> error + ('a list \<times> nat list \<times> nat list)" where
  "GatherArray inArrs outArr MPI_SZ Apart Adisp =
     (if length Apart < length inArrs then Inl OutOfBounds
      else
        (let Apart1 = MPI_Allgather_into 0 (map length inArrs) Apart
         in if length Adisp < max 1 MPI_SZ \<or> length Apart1 + 1 < MPI_SZ then Inl OutOfBounds
            else
              (let Adisp1 = Adisp_loop MPI_SZ Apart1 (Adisp[0 := 0])
               in case MPI_Gatherv inArrs outArr Apart1 Adisp1 of
                    Inl e \<Rightarrow> Inl e
                  | Inr out \<Rightarrow> Inr (out, Apart1, Adisp1))))"

text \<open>
  \<^verbatim>\<open>AmgXSolver::ScatterArray\<close>: the root's \<open>inArr\<close> is scattered by the descriptor into
  the \<open>outArr\<close> of every rank.
\<close>

definition ScatterArray ::
  "'a list \<Rightarrow> 'a list list \<Rightarrow> nat list \<Rightarrow> nat list \<Rightarrow> error + 'a list list" where
  "ScatterArray inArr outArrs Apart Adisp = MPI_Scatterv inArr Apart Adisp outArrs"

text \<open>
  What a scatter hands out, in words: the flat buffer cut into consecutive pieces of the
  given lengths, the piece of rank 0 first.
\<close>

fun split_by :: "nat list \<Rightarrow> 'a list \<Rightarrow> 'a list list" where
  "split_by [] buf = []"
| "split_by (n # ns) buf = take n buf # split_by ns (drop n buf)"

subsection \<open>\<^verbatim>\<open>solve\<close>\<close>

text \<open>
  One device group during \<^verbatim>\<open>solve(X, B)\<close>: the vectors \<open>X\<close> and \<open>B\<close> of every rank of
  \<^verbatim>\<open>devWorld\<close> in rank order, and of the leader (rank 0) its \<^verbatim>\<open>m_local_rows\<close>, whether its
  \<^verbatim>\<open>gpuWorld\<close> is \<^verbatim>\<open>MPI_COMM_NULL\<close>, the contents of the engine's two vectors, and what it
  has printed.
\<close>

record 'a group_state =
  X :: "'a list list"
  B :: "'a list list"
  m_local_rows :: nat
  gpuWorld_is_null :: bool
  AmgXP_data :: "'a list"
  AmgXRHS_data :: "'a list"
  stdout :: "string list"

definition AMGX_SOLVE_SUCCESS :: int where
  "AMGX_SOLVE_SUCCESS = 0"

definition solve_failed_msg :: string where
  "solve_failed_msg = ''Amgx failed to solve system, error code %d. ''"

text \<open>
  \<^verbatim>\<open>AMGX_vector_download\<close> copies the engine's vector over the front of the host buffer.
\<close>

definition AMGX_vector_download :: "'a list \<Rightarrow> 'a list \<Rightarrow> 'a list" where
  "AMGX_vector_download dev buf = write_at 0 (take (length buf) dev) buf"

text \<open>
  \<^verbatim>\<open>AmgXSolver::solve\<close>. The engine is a parameter: \<open>AMGX_solver_solve rhs p\<close> is the
  status it reports and the solution vector it leaves. \<open>uninit_X\<close> and \<open>uninit_B\<close> are
  what the freshly allocated \<^verbatim>\<open>all_X\<close> and \<^verbatim>\<open>all_B\<close> happen to hold; the four descriptor
  arrays are written before they are read, so their initial contents do not matter.
\<close>

definition solve ::
  "('a list \<Rightarrow> 'a list \<Rightarrow> int \<times> 'a list) \<Rightarrow> (nat \<Rightarrow> 'a) \<Rightarrow> (nat \<Rightarrow> 'a)
     \<Rightarrow> 'a group_state \<Rightarrow> error + 'a group_state" where
  "solve AMGX_solver_solve uninit_X uninit_B s =
     (let devWorldSize = length (X s);
          all_X = map uninit_X [0..<m_local_rows s];
          all_B = map uninit_B [0..<m_local_rows s];
          Apart_X = replicate devWorldSize 0;
          Adisp_X = replicate devWorldSize 0;
          Apart_B = replicate devWorldSize 0;
          Adisp_B = replicate devWorldSize 0
      in case GatherArray (X s) all_X devWorldSize Apart_X Adisp_X of
           Inl e \<Rightarrow> Inl e
         | Inr (all_X1, Apart_X1, Adisp_X1) \<Rightarrow>
       (case GatherArray (B s) all_B devWorldSize Apart_B Adisp_B of
           Inl e \<Rightarrow> Inl e
         | Inr (all_B1, Apart_B1, Adisp_B1) \<Rightarrow>
       (let (s1, all_X2) =
              (if \<not> gpuWorld_is_null s then
                 (let s2 = s\<lparr>AmgXP_data := all_X1\<rparr>;
                      s3 = s2\<lparr>AmgXRHS_data := all_B1\<rparr>;
                      (status, sol) = AMGX_solver_solve (AmgXRHS_data s3) (AmgXP_data s3);
                      s4 = s3\<lparr>AmgXP_data := sol\<rparr>;
                      s5 = (if status \<noteq> AMGX_SOLVE_SUCCESS
                            then s4\<lparr>stdout := stdout s4 @ [solve_failed_msg]\<rparr> else s4)
                  in (s5, AMGX_vector_download (AmgXP_data s5) all_X1))
               else (s, all_X1))
        in case ScatterArray all_X2 (X s1) Apart_X1 Adisp_X1 of
             Inl e \<Rightarrow> Inl e
           | Inr X1 \<Rightarrow> Inr (s1\<lparr>X := X1\<rparr>))))"

text \<open>A device group of two ranks that own two rows and one row, ready to solve.\<close>

definition example_group :: "int group_state" where
  "example_group =
     \<lparr>X = [[0, 0], [0]], B = [[10, 20], [30]], m_local_rows = 3, gpuWorld_is_null = False,
      AmgXP_data = [], AmgXRHS_data = [], stdout = []\<rparr>"

subsection \<open>The row-pointer merge of \<^verbatim>\<open>setA\<close>\<close>

text \<open>
  What the leader of a device group holds after the three gathers: the concatenated
  row pointers, column indices and values of the group.
\<close>

record 'a gathered =
  all_I :: "int list"
  all_J :: "int list"
  all_A :: "'a list"

definition bind_err :: "error + 'a \<Rightarrow> ('a \<Rightarrow> error + 'b) \<Rightarrow> error + 'b" where
  "bind_err r f = (case r of Inl e \<Rightarrow> Inl e | Inr v \<Rightarrow> f v)"

text \<open>
  \<^verbatim>\<open>z_ind\<close> is allocated with \<open>devWorldSize + 1\<close> slots and not initialised: a slot is
  \<open>None\<close> until it is written. Reading a slot:
\<close>

definition read_slot :: "nat option list \<Rightarrow> nat \<Rightarrow> error + nat" where
  "read_slot z_ind i =
     (if i < length z_ind
      then (case z_ind ! i of None \<Rightarrow> Inl Uninitialized | Some v \<Rightarrow> Inr v)
      else Inl OutOfBounds)"

text \<open>
  The scan \<^verbatim>\<open>if (all_I[idx] == 0) { z_ind[counter] = idx-1; counter++; }\<close> over the
  positions \<open>idxs\<close>; the loop state is \<open>counter\<close> and \<open>z_ind\<close>.
\<close>

fun find_zeros ::
  "int list \<Rightarrow> nat list \<Rightarrow> nat \<times> nat option list \<Rightarrow> error + (nat \<times> nat option list)" where
  "find_zeros a [] (counter, z_ind) = Inr (counter, z_ind)"
| "find_zeros a (idx # idxs) (counter, z_ind) =
     (if a ! idx = 0
      then (if counter < length z_ind
            then find_zeros a idxs (counter + 1, z_ind[counter := Some (idx - 1)])
            else Inl OutOfBounds)
      else find_zeros a idxs (counter, z_ind))"

text \<open>
  ``Determine the indices of zeros'': \<^verbatim>\<open>z_ind[0] = 0\<close>, the scan over
  \<open>1 \<le> idx < all_I.Size() - 1\<close>, then \<^verbatim>\<open>z_ind[devWorldSize] = all_I.Size() - 1\<close>.
  In \<^verbatim>\<open>setA\<close> the array \<open>all_I\<close> has \<open>nDevRows + devWorldSize \<ge> 1\<close> entries and \<open>z_ind\<close> has
  \<open>devWorldSize + 1\<close> slots, so the two writes by position are in range; for arguments
  of other sizes the model reports an access out of bounds.
\<close>

definition zero_indices :: "nat \<Rightarrow> int list \<Rightarrow> nat option list \<Rightarrow> error + nat option list" where
  "zero_indices devWorldSize a z_ind =
     (if length z_ind \<le> devWorldSize \<or> length a = 0 then Inl OutOfBounds
      else bind_err (find_zeros a [1..<length a - 1] (1, z_ind[0 := Some 0]))
             (\<lambda>(counter, z). Inr (z[devWorldSize := Some (length a - 1)])))"

text \<open>
  ``Bump'': \<^verbatim>\<open>all_I[idx] = all_I[idx-1] + (all_I[idx+1] - all_I[idx])\<close> for
  \<open>lo \<le> idx < hi\<close>. The loop reads position \<open>idx + 1\<close>, and \<open>idx - 1\<close>.
\<close>

definition bump :: "nat \<Rightarrow> nat \<Rightarrow> int list \<Rightarrow> error + int list" where
  "bump lo hi a =
     (if lo < hi \<and> (lo = 0 \<or> length a \<le> hi) then Inl OutOfBounds
      else Inr (fold (\<lambda>idx a. a[idx := a ! (idx - 1) + (a ! (idx + 1) - a ! idx)]) [lo..<hi] a))"

text \<open>``Shift'': \<^verbatim>\<open>all_I[idx] = all_I[idx+1]\<close> for \<open>lo \<le> idx < all_I.Size() - 1\<close>.\<close>

definition shift :: "nat \<Rightarrow> int list \<Rightarrow> int list" where
  "shift lo a = fold (\<lambda>idx a. a[idx := a ! (idx + 1)]) [lo..<length a - 1] a"

text \<open>The \<^verbatim>\<open>while (iter < devWorldSize - 1)\<close> loop.\<close>

function merge_loop ::
  "nat \<Rightarrow> nat \<Rightarrow> int list \<Rightarrow> nat option list \<Rightarrow> error + (int list \<times> nat option list)" where
  "merge_loop devWorldSize iter a z_ind =
     (if iter + 1 < devWorldSize then
        bind_err (zero_indices devWorldSize a z_ind) (\<lambda>z.
        bind_err (read_slot z 1) (\<lambda>z1.
        bind_err (read_slot z 2) (\<lambda>z2.
        bind_err (bump (z1 + 1) z2 a) (\<lambda>a1.
        merge_loop devWorldSize (iter + 1) (shift z2 a1) z))))
      else Inr (a, z_ind))"
  by pat_completeness auto
termination
  by (relation "measure (\<lambda>(devWorldSize, iter, a, z_ind). devWorldSize - iter)") auto

text \<open>
  The leader's block of \<^verbatim>\<open>setA\<close> between the gathers and the upload: the loop, the last
  pass, and \<^verbatim>\<open>local_nnz = all_I[all_I.Size() - devWorldSize]\<close>. The result is the merged
  array, still of its full length, and \<^verbatim>\<open>local_nnz\<close>.
\<close>

definition merge_all_I :: "nat \<Rightarrow> int list \<Rightarrow> error + (int list \<times> int)" where
  "merge_all_I devWorldSize a =
     (let z_ind = replicate (devWorldSize + 1) None
      in bind_err (merge_loop devWorldSize 1 a z_ind) (\<lambda>(a1, z).
         bind_err (zero_indices devWorldSize a1 z) (\<lambda>z'.
         bind_err (read_slot z' 1) (\<lambda>z1.
         bind_err (bump (z1 + 1) (length a1 - 1) a1) (\<lambda>a2.
         if devWorldSize = 0 \<or> length a2 < devWorldSize then Inl OutOfBounds
         else Inr (a2, a2 ! (length a2 - devWorldSize)))))))"

definition setA_merge :: "nat \<Rightarrow> 'a gathered \<Rightarrow> error + ('a gathered \<times> int)" where
  "setA_merge devWorldSize g =
     bind_err (merge_all_I devWorldSize (all_I g))
       (\<lambda>(a, local_nnz). Inr (g\<lparr>all_I := a\<rparr>, local_nnz))"

text \<open>
  The matrix uploaded has \<open>nDevRows\<close> rows, so the engine reads the first
  \<open>nDevRows + 1 = all_I.Size() - devWorldSize + 1\<close> entries of \<open>all_I\<close>.
\<close>

definition row_pointers :: "nat \<Rightarrow> int list \<Rightarrow> int list" where
  "row_pointers devWorldSize a = take (length a + 1 - devWorldSize) a"

text \<open>
  The merge in the words of the specification: each fragment after the first is shifted
  by the final values of the fragments before it, and its leading zero is dropped.
\<close>

fun shifted_tails :: "int \<Rightarrow> int list list \<Rightarrow> int list" where
  "shifted_tails off [] = []"
| "shifted_tails off (f # fs) = map (\<lambda>v. off + v) (tl f) @ shifted_tails (off + last f) fs"

definition merged_row_pointers :: "int list list \<Rightarrow> int list" where
  "merged_row_pointers frags = 0 # shifted_tails 0 frags"

text \<open>
  A fragment the merge can handle: it starts at 0, owns at least one row, and no later
  entry is 0 (with monotonicity: the first row is not empty).
\<close>

definition fragment :: "int list \<Rightarrow> bool" where
  "fragment f = (2 \<le> length f \<and> hd f = 0 \<and> list_all (\<lambda>v. 0 < v) (tl f) \<and> sorted f)"

text \<open>The gathered arrays of a group of three ranks owning two rows, one row and two rows.\<close>

definition example_gathered :: "int gathered" where
  "example_gathered =
     \<lparr>all_I = [0, 2, 5, 0, 3, 0, 1, 4],
      all_J = [0, 1, 0, 1, 2, 1, 2, 3, 3, 2, 3, 4],
      all_A = [4, -1, -1, 4, -1, -1, 4, -1, 4, -1, 4, -1]\<rparr>"

subsection \<open>\<^verbatim>\<open>GetLocalA\<close>\<close>

text \<open>
  What \<^verbatim>\<open>GetLocalA\<close> reads of the \<^verbatim>\<open>HypreParMatrix\<close>, after \<^verbatim>\<open>GetDiag\<close>, \<^verbatim>\<open>GetOffd\<close> and the
  two calls of \<^verbatim>\<open>SortColumnIndices\<close>: the CSR arrays of the diagonal and of the
  off-diagonal block, the column map \<^verbatim>\<open>cmap\<close>, and the row and column partition.
\<close>

record 'a blocks =
  DiagI :: "int list"
  DiagJ :: "int list"
  DiagA :: "'a list"
  OffI :: "int list"
  OffJ :: "int list"
  OffA :: "'a list"
  cmap :: "int list"
  RowPart :: "int \<times> int"
  ColPart :: "int \<times> int"

text \<open>
  The first loop: \<^verbatim>\<open>I[i+1] = I[i] + (DiagI[i+1] - DiagI[i]) + (OffI[i+1] - OffI[i])\<close>,
  after \<^verbatim>\<open>I.SetSize(row_len+1); I[0] = 0\<close>. Every slot of \<open>I\<close> is written before it is read.
\<close>

definition compute_I :: "'a blocks \<Rightarrow> nat \<Rightarrow> error + int list" where
  "compute_I m row_len =
     (if 0 < row_len \<and> (length (DiagI m) \<le> row_len \<or> length (OffI m) \<le> row_len)
      then Inl OutOfBounds
      else Inr (fold (\<lambda>i I. I[i + 1 := I ! i + (DiagI m ! (i + 1) - DiagI m ! i)
                                        + (OffI m ! (i + 1) - OffI m ! i)])
                  [0..<row_len] (replicate (row_len + 1) 0)))"

text \<open>
  The state of the second loop: the output position \<open>k\<close>, the output arrays, and the two
  read positions. \<^verbatim>\<open>OffJ\<close> and \<^verbatim>\<open>OffA\<close> are advanced by the same statements, and so are
  \<^verbatim>\<open>DiagJ\<close> and \<^verbatim>\<open>DiagA\<close>, so one position stands for each pair of pointers.
\<close>

record 'a fill =
  fill_k :: nat
  OffJ_ptr :: nat
  DiagJ_ptr :: nat
  fill_J :: "int list"
  fill_Data :: "'a list"

text \<open>\<^verbatim>\<open>J[k] = col; Data[k++] = val\<close>.\<close>

definition store :: "int \<Rightarrow> 'a \<Rightarrow> 'a fill \<Rightarrow> error + 'a fill" where
  "store col val s =
     (if length (fill_J s) \<le> fill_k s \<or> length (fill_Data s) \<le> fill_k s then Inl OutOfBounds
      else Inr (s\<lparr>fill_J := (fill_J s)[fill_k s := col],
                  fill_Data := (fill_Data s)[fill_k s := val],
                  fill_k := fill_k s + 1\<rparr>))"

text \<open>\<^verbatim>\<open>cmap[*OffJ]\<close> at the current read position.\<close>

definition global_col :: "'a blocks \<Rightarrow> nat \<Rightarrow> error + int" where
  "global_col m p =
     (if length (OffJ m) \<le> p then Inl OutOfBounds
      else if OffJ m ! p < 0 \<or> int (length (cmap m)) \<le> OffJ m ! p then Inl OutOfBounds
      else Inr (cmap m ! nat (OffJ m ! p)))"

text \<open>
  The first inner loop, with \<open>n\<close> iterations left: it stops at the first off-diagonal
  entry whose global column is not below \<open>cstart\<close>, and hands \<open>jo\<close> on.
\<close>

fun offd_first :: "'a blocks \<Rightarrow> int \<Rightarrow> nat \<Rightarrow> nat \<Rightarrow> 'a fill \<Rightarrow> error + (nat \<times> 'a fill)" where
  "offd_first m cstart 0 jo s = Inr (jo, s)"
| "offd_first m cstart (Suc n) jo s =
     bind_err (global_col m (OffJ_ptr s)) (\<lambda>icol.
       if icol \<ge> cstart then Inr (jo, s)
       else if length (OffA m) \<le> OffJ_ptr s then Inl OutOfBounds
       else bind_err (store icol (OffA m ! OffJ_ptr s) (s\<lparr>OffJ_ptr := OffJ_ptr s + 1\<rparr>))
              (offd_first m cstart n (jo + 1)))"

text \<open>The second inner loop: \<^verbatim>\<open>J[k] = cstart + *DiagJ++; Data[k++] = *DiagA++\<close>.\<close>

fun diag_all :: "'a blocks \<Rightarrow> int \<Rightarrow> nat \<Rightarrow> 'a fill \<Rightarrow> error + 'a fill" where
  "diag_all m cstart 0 s = Inr s"
| "diag_all m cstart (Suc n) s =
     (if length (DiagJ m) \<le> DiagJ_ptr s \<or> length (DiagA m) \<le> DiagJ_ptr s then Inl OutOfBounds
      else bind_err (store (cstart + DiagJ m ! DiagJ_ptr s) (DiagA m ! DiagJ_ptr s)
                       (s\<lparr>DiagJ_ptr := DiagJ_ptr s + 1\<rparr>))
             (diag_all m cstart n))"

text \<open>The third inner loop: \<^verbatim>\<open>J[k] = cmap[*OffJ++]; Data[k++] = *OffA++\<close>.\<close>

fun offd_rest :: "'a blocks \<Rightarrow> nat \<Rightarrow> 'a fill \<Rightarrow> error + 'a fill" where
  "offd_rest m 0 s = Inr s"
| "offd_rest m (Suc n) s =
     bind_err (global_col m (OffJ_ptr s)) (\<lambda>icol.
       if length (OffA m) \<le> OffJ_ptr s then Inl OutOfBounds
       else bind_err (store icol (OffA m ! OffJ_ptr s) (s\<lparr>OffJ_ptr := OffJ_ptr s + 1\<rparr>))
              (offd_rest m n))"

text \<open>The body of the row loop, for row \<open>i\<close>.\<close>

definition fill_row :: "'a blocks \<Rightarrow> int \<Rightarrow> nat \<Rightarrow> 'a fill \<Rightarrow> error + 'a fill" where
  "fill_row m cstart i s =
     (if length (OffI m) \<le> i + 1 \<or> length (DiagI m) \<le> i + 1 then Inl OutOfBounds
      else
        (let ncols_o = OffI m ! (i + 1) - OffI m ! i;
             ncols_d = DiagI m ! (i + 1) - DiagI m ! i
         in bind_err (offd_first m cstart (nat ncols_o) 0 s) (\<lambda>(jo, s1).
            bind_err (diag_all m cstart (nat ncols_d) s1) (\<lambda>s2.
            offd_rest m (nat ncols_o - jo) s2))))"

fun fill_rows :: "'a blocks \<Rightarrow> int \<Rightarrow> nat list \<Rightarrow> 'a fill \<Rightarrow> error + 'a fill" where
  "fill_rows m cstart [] s = Inr s"
| "fill_rows m cstart (i # rows) s = bind_err (fill_row m cstart i s) (fill_rows m cstart rows)"

text \<open>
  \<^verbatim>\<open>AmgXSolver::GetLocalA\<close>; the result is \<open>(I, J, Data)\<close>. \<^verbatim>\<open>SetSize\<close> does not initialise
  the arrays: their slots hold 0 and \<open>fresh\<close> here until they are written. A negative
  \<^verbatim>\<open>I[row_len]\<close> is no size for \<open>J\<close> and \<open>Data\<close>.
\<close>

definition GetLocalA :: "'a \<Rightarrow> 'a blocks \<Rightarrow> error + (int list \<times> int list \<times> 'a list)" where
  "GetLocalA fresh m =
     (let row_len = nat \<bar>snd (RowPart m) - fst (RowPart m)\<bar>
      in bind_err (compute_I m row_len) (\<lambda>I.
         if I ! row_len < 0 then Inl OutOfBounds
         else
           (let nnz = nat (I ! row_len);
                cstart = fst (ColPart m);
                s0 = \<lparr>fill_k = 0, OffJ_ptr = 0, DiagJ_ptr = 0,
                      fill_J = replicate nnz 0, fill_Data = replicate nnz fresh\<rparr>
            in bind_err (fill_rows m cstart [0..<row_len] s0)
                 (\<lambda>s. Inr (I, fill_J s, fill_Data s)))))"

text \<open>
  The specification's description of the output. Row \<open>i\<close> of a CSR block is the slice of
  its column and value arrays between \<open>I[i]\<close> and \<open>I[i+1]\<close>; the off-diagonal entries of a
  row come with their global columns.
\<close>

definition row_slice :: "int list \<Rightarrow> 'b list \<Rightarrow> nat \<Rightarrow> 'b list" where
  "row_slice I xs i = take (nat (I ! (i + 1) - I ! i)) (drop (nat (I ! i)) xs)"

definition offd_entries :: "'a blocks \<Rightarrow> nat \<Rightarrow> (int \<times> 'a) list" where
  "offd_entries m i =
     zip (map (\<lambda>c. cmap m ! nat c) (row_slice (OffI m) (OffJ m) i)) (row_slice (OffI m) (OffA m) i)"

definition diag_entries :: "'a blocks \<Rightarrow> nat \<Rightarrow> (int \<times> 'a) list" where
  "diag_entries m i =
     zip (map (\<lambda>c. fst (ColPart m) + c) (row_slice (DiagI m) (DiagJ m) i))
         (row_slice (DiagI m) (DiagA m) i)"

definition expected_row :: "'a blocks \<Rightarrow> nat \<Rightarrow> (int \<times> 'a) list" where
  "expected_row m i =
     filter (\<lambda>e. fst e < fst (ColPart m)) (offd_entries m i)
     @ diag_entries m i
     @ filter (\<lambda>e. \<not> fst e < fst (ColPart m)) (offd_entries m i)"

text \<open>
  The input contract: both blocks are CSR matrices with as many rows as the row
  partition, the off-diagonal column indices are positions of \<open>cmap\<close>, and the column
  indices of every off-diagonal row are sorted.
\<close>

definition csr :: "nat \<Rightarrow> int list \<Rightarrow> int list \<Rightarrow> 'a list \<Rightarrow> bool" where
  "csr rows I J A =
     (length I = rows + 1 \<and> I ! 0 = 0 \<and> sorted I
      \<and> int (length J) = I ! rows \<and> length A = length J)"

definition input_contract :: "'a blocks \<Rightarrow> bool" where
  "input_contract m =
     (let rows = nat \<bar>snd (RowPart m) - fst (RowPart m)\<bar>
      in csr rows (DiagI m) (DiagJ m) (DiagA m)
       \<and> csr rows (OffI m) (OffJ m) (OffA m)
       \<and> list_all (\<lambda>c. 0 \<le> c \<and> c < int (length (cmap m))) (OffJ m)
       \<and> list_all (\<lambda>i. sorted (row_slice (OffI m) (OffJ m) i)) [0..<rows])"

text \<open>
  What the second loop writes for row \<open>i\<close>: the leading off-diagonal entries whose global
  column is below \<open>cstart\<close>, the diagonal entries, the other off-diagonal entries.
\<close>

definition row_cols :: "'a blocks \<Rightarrow> nat \<Rightarrow> int list" where
  "row_cols m i =
     (let cols = map (\<lambda>c. cmap m ! nat c) (row_slice (OffI m) (OffJ m) i);
          c = length (takeWhile (\<lambda>x. x < fst (ColPart m)) cols)
      in take c cols @ map (\<lambda>c. fst (ColPart m) + c) (row_slice (DiagI m) (DiagJ m) i)
           @ drop c cols)"

definition row_vals :: "'a blocks \<Rightarrow> nat \<Rightarrow> 'a list" where
  "row_vals m i =
     (let cols = map (\<lambda>c. cmap m ! nat c) (row_slice (OffI m) (OffJ m) i);
          c = length (takeWhile (\<lambda>x. x < fst (ColPart m)) cols);
          ovals = row_slice (OffI m) (OffA m) i
      in take c ovals @ row_slice (DiagI m) (DiagA m) i @ drop c ovals)"

text \<open>
  Two rows owned by a process whose columns start at 2, with off-diagonal columns 0, 1
  and 5; and a block of one row whose column map is not increasing.
\<close>

definition example_blocks :: "int blocks" where
  "example_blocks =
     \<lparr>DiagI = [0, 2, 3], DiagJ = [0, 1, 1], DiagA = [10, 11, 12],
      OffI = [0, 2, 4], OffJ = [0, 2, 1, 2], OffA = [20, 21, 22, 23],
      cmap = [0, 1, 5], RowPart = (2, 4), ColPart = (2, 4)\<rparr>"

definition unsorted_cmap_blocks :: "int blocks" where
  "unsorted_cmap_blocks =
     \<lparr>DiagI = [0, 1], DiagJ = [0], DiagA = [10],
      OffI = [0, 2], OffJ = [0, 1], OffA = [20, 21],
      cmap = [5, 1], RowPart = (0, 1), ColPart = (3, 4)\<rparr>"


section \<open>Theorems\<close>

subsection \<open>\<^verbatim>\<open>finalize\<close>\<close>

text \<open>
  C3. Calling \<^verbatim>\<open>finalize\<close> on an instance that is not initialised should print a
  diagnostic and do nothing else. The code prints the diagnostic and then carries on:
  on the instance that has just been finalized, a second call frees the three
  communicators again, each call an error of MPI, and decrements the instance counter
  from 0 to -1, so the state is not the old state with one more printed line.
\<close>

theorem finalize_uninitialized_not_noop:
  "count (finalize (- 32766) finalized_instance) = - 1
   \<and> mpi_errors (finalize (- 32766) finalized_instance)
       = [globalCpuWorld, localCpuWorld, devWorld]
   \<and> printed (finalize (- 32766) finalized_instance) = [not_initialized_msg]
   \<and> finalize (- 32766) finalized_instance \<noteq> printf not_initialized_msg finalized_instance"
proof -
  have c: "count (finalize (- 32766) finalized_instance) = - 1"
    by (simp add: finalize_def finalized_instance_def printf_def MPI_Comm_free_def)
  have e: "mpi_errors (finalize (- 32766) finalized_instance)
       = [globalCpuWorld, localCpuWorld, devWorld]"
    by (simp add: finalize_def finalized_instance_def printf_def MPI_Comm_free_def)
  have p: "printed (finalize (- 32766) finalized_instance) = [not_initialized_msg]"
    by (simp add: finalize_def finalized_instance_def printf_def MPI_Comm_free_def)
  have "count (printf not_initialized_msg finalized_instance) = 0"
    by (simp add: finalized_instance_def printf_def)
  with c have "finalize (- 32766) finalized_instance \<noteq> printf not_initialized_msg finalized_instance"
    by auto
  with c e p show ?thesis by simp
qed

text \<open>
  C7, as stated: teardown releases all four communicators. It does not: after
  \<^verbatim>\<open>finalize\<close> on a live leader instance the solve-participant communicator
  \<^verbatim>\<open>gpuWorld\<close> is still held.
\<close>

theorem finalize_keeps_gpuWorld:
  "\<not> (comms (finalize (- 32766) leader_instance) = {})
   \<and> gpuWorld \<in> comms (finalize (- 32766) leader_instance)"
  by (simp add: finalize_def leader_instance_def finalize_gpu_def destroy_def
      MPI_Comm_free_def Let_def)

text \<open>
  C7, amended: for every instance state, \<^verbatim>\<open>finalize\<close> releases the global, node-local
  and device-group communicators, leaves the solve-participant communicator as it was,
  sets \<^verbatim>\<open>gpuProc\<close> to \<open>MPI_UNDEFINED\<close> and clears \<^verbatim>\<open>isInitialized\<close>.
\<close>

theorem finalize_teardown:
  "comms (finalize MPI_UNDEFINED s) = comms s - {globalCpuWorld, localCpuWorld, devWorld}
   \<and> (gpuWorld \<in> comms (finalize MPI_UNDEFINED s)) = (gpuWorld \<in> comms s)
   \<and> gpuProc (finalize MPI_UNDEFINED s) = MPI_UNDEFINED
   \<and> isInitialized (finalize MPI_UNDEFINED s) = False"
  by (auto simp add: finalize_def finalize_gpu_def destroy_def printf_def
      MPI_Comm_free_def Let_def)

subsection \<open>\<^verbatim>\<open>setDeviceIDs\<close>\<close>

lemma sdiv_nonneg: "0 \<le> a \<Longrightarrow> 0 < b \<Longrightarrow> a sdiv b = a div (b::int)"
  by (auto simp add: signed_divide_int_def sgn_if)

lemma smod_nonneg: "0 \<le> a \<Longrightarrow> 0 < b \<Longrightarrow> a smod b = a mod (b::int)"
  by (auto simp add: signed_modulo_int_def sgn_if)

lemma group_start_closed:
  assumes "0 \<le> d" "0 < D"
  shows "group_start P D d = d * (P div D) + min d (P mod D)"
  using assms
proof (induction d rule: int_ge_induct)
  case base
  then show ?case by (simp add: group_start_def)
next
  case (step i)
  have "[0..i + 1 - 1] = [0..i - 1] @ [i]"
    using step.hyps upto_rec2[of 0 i] by simp
  then have "group_start P D (i + 1) = group_start P D i + group_size P D i"
    by (simp add: group_start_def)
  with step show ?case
    by (auto simp add: group_size_def algebra_simps min_def)
qed

lemma div_interval:
  fixes r c d :: int
  assumes "0 < c"
  shows "(r div c = d) = (d * c \<le> r \<and> r < d * c + c)"
proof
  assume "r div c = d"
  moreover have "r = c * (r div c) + r mod c" by simp
  moreover have "0 \<le> r mod c" "r mod c < c" using assms by simp_all
  ultimately show "d * c \<le> r \<and> r < d * c + c"
    by (metis add.commute add_le_cancel_left add_less_cancel_left mult.commute add.right_neutral)
next
  assume a: "d * c \<le> r \<and> r < d * c + c"
  have "r div c = (r - d * c + d * c) div c" by simp
  also have "\<dots> = (r - d * c) div c + d" using assms by (smt (verit, best) div_mult_self3)
  also have "(r - d * c) div c = 0" using a by (simp add: div_pos_pos_trivial)
  finally show "r div c = d" by simp
qed

lemma mod_zero_iff:
  fixes r c :: int
  shows "(r mod c = 0) = (r = (r div c) * c)"
  by (metis add_0 mod_mult_div_eq mod_mult_self1_is_0 mult.commute)

lemma setDeviceIDs_fewer:
  assumes D: "1 \<le> D" "D < P" and s: "localSize s = P" "myLocalRank s = r" "gpuProc s \<noteq> 0"
    and r: "0 \<le> r" "r < P"
  shows "\<exists>s'. setDeviceIDs D s = Inr s' \<and> 0 \<le> devID s' \<and> devID s' < D
     \<and> group_start P D (devID s') \<le> r
     \<and> r < group_start P D (devID s') + group_size P D (devID s')
     \<and> (gpuProc s' = 0) = (r = group_start P D (devID s'))"
proof -
  define b where "b = P div D"
  define m where "m = P mod D"
  have P: "P = D * b + m" by (simp add: b_def m_def)
  have m: "0 \<le> m" "m < D" using D by (simp_all add: m_def)
  have b: "1 \<le> b" using D unfolding b_def by (smt (verit, del_insts) nonneg1_imp_zdiv_pos_iff)
  have sb: "localSize s sdiv D = b" "localSize s smod D = m"
    using D s by (simp_all add: sdiv_nonneg smod_nonneg b_def m_def)
  show ?thesis
  proof (cases "r < (b + 1) * m")
    case True
    define d where "d = r div (b + 1)"
    have dv: "d * (b + 1) \<le> r" "r < d * (b + 1) + (b + 1)"
      using div_interval[of "b + 1" r d] b by (simp_all add: d_def)
    have d0: "0 \<le> d" using r b by (simp add: d_def pos_imp_zdiv_nonneg_iff)
    have dm: "d < m"
    proof (rule ccontr)
      assume "\<not> d < m"
      then have "m * (b + 1) \<le> d * (b + 1)" using b by (intro mult_right_mono) auto
      with dv True show False by (simp add: mult.commute)
    qed
    have st: "group_start P D d = d * (b + 1)"
      using group_start_closed[of d D P] d0 D dm by (simp add: b_def[symmetric] m_def[symmetric] algebra_simps)
    have sz: "group_size P D d = b + 1" using dm by (simp add: group_size_def b_def m_def)
    have ld: "(r mod (b + 1) = 0) = (r = d * (b + 1))"
      unfolding d_def by (rule mod_zero_iff)
    have lt: "myLocalRank s < (localSize s sdiv D + 1) * (localSize s smod D)"
      using True s sb by simp
    have dd: "myLocalRank s sdiv (b + 1) = d" "myLocalRank s smod (b + 1) = r mod (b + 1)"
      using r b s by (simp_all add: sdiv_nonneg smod_nonneg d_def)
    have ne: "D \<noteq> localSize s" "\<not> localSize s < D" "D \<noteq> 0" "b + 1 \<noteq> 0"
      using D s b by simp_all
    let ?s1 = "s\<lparr>devID := d\<rparr>"
    let ?s' = "if r mod (b + 1) = 0 then ?s1\<lparr>gpuProc := 0\<rparr> else ?s1"
    have run: "setDeviceIDs D s = Inr ?s'"
      unfolding setDeviceIDs_def Let_def using lt ne sb dd by simp
    have dev: "devID ?s' = d" by simp
    have gp: "(gpuProc ?s' = 0) = (r mod (b + 1) = 0)" using s by simp
    show ?thesis
      unfolding run using dev gp d0 dm m dv st sz ld by auto
  next
    case False
    define e where "e = r - (b + 1) * m"
    define q where "q = e div b"
    have e0: "0 \<le> e" using False by (simp add: e_def)
    have qv: "q * b \<le> e" "e < q * b + b"
      using div_interval[of b e q] b by (simp_all add: q_def)
    have q0: "0 \<le> q" using e0 b by (simp add: q_def pos_imp_zdiv_nonneg_iff)
    have eD: "e < (D - m) * b" using r P by (simp add: e_def algebra_simps)
    have qD: "q < D - m"
    proof (rule ccontr)
      assume "\<not> q < D - m"
      then have "(D - m) * b \<le> q * b" using b by (intro mult_right_mono) auto
      with qv eD show False by simp
    qed
    define d where "d = q + m"
    have dm: "\<not> d < m" "0 \<le> d" "d < D" using q0 qD m by (simp_all add: d_def)
    have st: "group_start P D d = d * b + m"
      using group_start_closed[of d D P] dm D by (simp add: b_def[symmetric] m_def[symmetric] min_def)
    have sz: "group_size P D d = b" using dm by (simp add: group_size_def b_def m_def)
    have ld: "(e mod b = 0) = (e = q * b)"
      unfolding q_def by (rule mod_zero_iff)
    have lt: "\<not> myLocalRank s < (localSize s sdiv D + 1) * (localSize s smod D)"
      using False s sb by simp
    have dd: "(myLocalRank s - (b + 1) * m) sdiv b = q" "(myLocalRank s - (b + 1) * m) smod b = e mod b"
      using e0 b s by (simp_all add: sdiv_nonneg smod_nonneg q_def e_def)
    have ne: "D \<noteq> localSize s" "\<not> localSize s < D" "D \<noteq> 0" "b \<noteq> 0"
      using D s b by simp_all
    let ?s1 = "s\<lparr>devID := d\<rparr>"
    let ?s' = "if e mod b = 0 then ?s1\<lparr>gpuProc := 0\<rparr> else ?s1"
    have run: "setDeviceIDs D s = Inr ?s'"
      unfolding setDeviceIDs_def Let_def using lt ne sb dd by (simp add: d_def)
    have dev: "devID ?s' = d" by simp
    have gp: "(gpuProc ?s' = 0) = (e mod b = 0)" using s by simp
    have "d * b + m \<le> r" "r < d * b + m + b" "(e = q * b) = (r = d * b + m)"
      using qv by (simp_all add: e_def d_def algebra_simps)
    then show ?thesis
      unfolding run using dev gp dm st sz ld by auto
  qed
qed


lemma setDeviceIDs_equal:
  assumes D: "1 \<le> D" "D = P" and s: "localSize s = P" "myLocalRank s = r" "gpuProc s \<noteq> 0"
    and r: "0 \<le> r" "r < P"
  shows "\<exists>s'. setDeviceIDs D s = Inr s' \<and> 0 \<le> devID s' \<and> devID s' < D
     \<and> group_start P D (devID s') \<le> r
     \<and> r < group_start P D (devID s') + group_size P D (devID s')
     \<and> (gpuProc s' = 0) = (r = group_start P D (devID s'))"
proof -
  have run: "setDeviceIDs D s = Inr (s\<lparr>devID := r, gpuProc := 0\<rparr>)"
    using D s by (simp add: setDeviceIDs_def)
  have st: "group_start P D r = r"
    using group_start_closed[of r D P] r D by simp
  have sz: "group_size P D r = 1" using D r by (simp add: group_size_def)
  show ?thesis unfolding run using st sz r D by simp
qed

lemma group_start_step:
  assumes "0 \<le> d"
  shows "group_start P D (d + 1) = group_start P D d + group_size P D d"
proof -
  have "[0..d + 1 - 1] = [0..d - 1] @ [d]"
    using assms upto_rec2[of 0 d] by simp
  then show ?thesis by (simp add: group_start_def)
qed

lemma group_start_mono:
  assumes "0 \<le> d" "d \<le> d'" "0 < D" "0 \<le> P"
  shows "group_start P D d \<le> group_start P D d'"
proof -
  have b: "0 \<le> P div D" using assms by (simp add: pos_imp_zdiv_nonneg_iff)
  have "d * (P div D) \<le> d' * (P div D)" using assms b by (intro mult_right_mono) auto
  then show ?thesis using assms by (simp add: group_start_closed min_def)
qed

lemma group_interval_unique:
  assumes D: "0 < D" "0 \<le> P" and d: "0 \<le> d" "0 \<le> d'"
    and i: "group_start P D d \<le> r" "r < group_start P D d + group_size P D d"
    and i': "group_start P D d' \<le> r" "r < group_start P D d' + group_size P D d'"
  shows "d = d'"
proof (rule ccontr)
  assume ne: "d \<noteq> d'"
  show False
  proof (cases "d < d'")
    case True
    then have "group_start P D (d + 1) \<le> group_start P D d'"
      using D d by (intro group_start_mono) auto
    with i i' d show False by (simp add: group_start_step)
  next
    case False
    with ne have "group_start P D (d' + 1) \<le> group_start P D d"
      using D d by (intro group_start_mono) auto
    with i i' d show False by (simp add: group_start_step)
  qed
qed

text \<open>
  C2. For a node with \<open>P\<close> processes and \<open>D\<close> devices, \<open>1 \<le> D \<le> P\<close>, the process of
  node-local rank \<open>r\<close> gets exactly one device id, in \<open>[0, D)\<close>; the ranks with device id
  \<open>d\<close> are exactly the contiguous group \<open>d\<close> of the specification (the groups start at 0,
  end at \<open>P\<close>, and each has size \<open>P div D + 1\<close> or \<open>P div D\<close>, at least 1); and the process
  is a leader (\<^verbatim>\<open>gpuProc == 0\<close>) exactly when it is the first rank of its group. Before
  the call \<^verbatim>\<open>gpuProc\<close> holds the non-zero value it is declared with, \<open>MPI_UNDEFINED\<close>.
\<close>

theorem setDeviceIDs_partition:
  assumes D: "1 \<le> D" "D \<le> P" and s: "localSize s = P" "myLocalRank s = r" "gpuProc s \<noteq> 0"
    and r: "0 \<le> r" "r < P"
  shows "(\<exists>s'. setDeviceIDs D s = Inr s' \<and> 0 \<le> devID s' \<and> devID s' < D
       \<and> (\<forall>d. 0 \<le> d \<and> d < D \<longrightarrow>
            (devID s' = d) = (group_start P D d \<le> r \<and> r < group_start P D d + group_size P D d))
       \<and> (gpuProc s' = 0) = (r = group_start P D (devID s')))
     \<and> group_start P D 0 = 0 \<and> group_start P D D = P
     \<and> (\<forall>d. 0 \<le> d \<and> d < D \<longrightarrow> 1 \<le> group_size P D d)"
proof -
  have "\<exists>s'. setDeviceIDs D s = Inr s' \<and> 0 \<le> devID s' \<and> devID s' < D
     \<and> group_start P D (devID s') \<le> r
     \<and> r < group_start P D (devID s') + group_size P D (devID s')
     \<and> (gpuProc s' = 0) = (r = group_start P D (devID s'))"
  proof (cases "D = P")
    case True
    then show ?thesis using setDeviceIDs_equal[OF D(1) True s r] by simp
  next
    case False
    then have "D < P" using D by simp
    then show ?thesis using setDeviceIDs_fewer[OF D(1) _ s r] by simp
  qed
  then obtain s' where run: "setDeviceIDs D s = Inr s'"
    and dv: "0 \<le> devID s'" "devID s' < D"
    and iv: "group_start P D (devID s') \<le> r"
            "r < group_start P D (devID s') + group_size P D (devID s')"
    and ld: "(gpuProc s' = 0) = (r = group_start P D (devID s'))"
    by blast
  have P0: "0 \<le> P" "0 < D" using D by simp_all
  have ch: "\<forall>d. 0 \<le> d \<and> d < D \<longrightarrow>
      (devID s' = d) = (group_start P D d \<le> r \<and> r < group_start P D d + group_size P D d)"
    using group_interval_unique[OF P0(2) P0(1) dv(1) _ iv] iv by blast
  have g0: "group_start P D 0 = 0" by (simp add: group_start_def)
  have md: "P mod D < D" using D by simp
  have gD: "group_start P D D = P"
    using group_start_closed[of D D P] D md by (simp add: min_def mult.commute)
  have b: "1 \<le> P div D" using D by (smt (verit, del_insts) nonneg1_imp_zdiv_pos_iff)
  have sz: "\<forall>d. 0 \<le> d \<and> d < D \<longrightarrow> 1 \<le> group_size P D d"
    using b by (simp add: group_size_def)
  from run dv ch ld g0 gD sz show ?thesis by blast
qed

text \<open>
  With \<open>P = 4\<close> and \<open>D = 2\<close>: ranks 0 and 1 get device 0 with rank 0 as leader, ranks 2 and
  3 get device 1 with rank 2 as leader.
\<close>

theorem setDeviceIDs_partition_witness:
  "(\<exists>s'. setDeviceIDs 2 (rank_state 4 2) = Inr s' \<and> devID s' = 1 \<and> gpuProc s' = 0
         \<and> group_start 4 2 (devID s') = 2)
   \<and> map (\<lambda>r. map_sum id (\<lambda>s'. (devID s', gpuProc s' = 0)) (setDeviceIDs 2 (rank_state 4 r)))
        [0, 1, 2, 3]
      = [Inr (0, True), Inr (0, False), Inr (1, True), Inr (1, False)]"
proof -
  have h: "(1::int) \<le> 2" "(2::int) \<le> 4" "localSize (rank_state 4 2) = 4"
    "myLocalRank (rank_state 4 2) = 2" "gpuProc (rank_state 4 2) \<noteq> 0" "(0::int) \<le> 2" "(2::int) < 4"
    by (simp_all add: rank_state_def)
  have e: "map (\<lambda>r. map_sum id (\<lambda>s'. (devID s', gpuProc s' = 0)) (setDeviceIDs 2 (rank_state 4 r)))
        [0, 1, 2, 3]
      = [Inr (0, True), Inr (0, False), Inr (1, True), Inr (1, False)]"
    by (simp add: setDeviceIDs_def rank_state_def signed_divide_int_def signed_modulo_int_def Let_def)
  have g: "group_start 4 2 1 = 2" by (simp add: group_start_def group_size_def upto_rec1)
  from setDeviceIDs_partition[OF h] obtain s' where
    "setDeviceIDs 2 (rank_state 4 2) = Inr s'" "(gpuProc s' = 0) = (2 = group_start 4 2 (devID s'))"
    by blast
  then show ?thesis using e g by auto
qed

subsection \<open>The row partition table\<close>

lemma fixup_length:
  "length (fold (\<lambda>i rp. rp[i := rp ! i + rp ! (i - 1)]) is (rp::int list)) = length rp"
  by (induction "is" arbitrary: rp) auto

lemma fixup_nth:
  "m \<le> length rp \<Longrightarrow> i < length rp \<Longrightarrow>
   fold (\<lambda>i rp. rp[i := rp ! i + rp ! (i - 1)]) [1..<m] rp ! i
     = (if i < m then sum_list (take (Suc i) rp) else (rp ! i :: int))"
proof (induction m arbitrary: i)
  case 0
  then show ?case by simp
next
  case (Suc m)
  show ?case
  proof (cases "m = 0")
    case True
    with Suc.prems show ?thesis by (cases rp) auto
  next
    case False
    note m0 = False
    then have up: "[1..<Suc m] = [1..<m] @ [m]" by simp
    let ?r = "fold (\<lambda>i rp. rp[i := rp ! i + rp ! (i - 1)]) [1..<m] rp"
    have len: "length ?r = length rp" by (rule fixup_length)
    have m: "m < length rp" using Suc.prems by simp
    have a: "?r ! m = rp ! m" using Suc.IH[of m] m by simp
    have b: "?r ! (m - 1) = sum_list (take m rp)" using Suc.IH[of "m - 1"] m False by simp
    have t: "sum_list (take (Suc m) rp) = sum_list (take m rp) + rp ! m"
      using m by (simp add: take_Suc_conv_app_nth)
    show ?thesis
    proof (cases "i = m")
      case True
      then show ?thesis using a b t m len m0 by (simp add: up)
    next
      case False
      then show ?thesis using Suc.IH[of i] Suc.prems len by (auto simp add: up)
    qed
  qed
qed

lemma rowPart_fixup_length: "length (rowPart_fixup rp) = length rp"
  unfolding rowPart_fixup_def by (rule fixup_length)

lemma rowPart_fixup_nth:
  "i < length rp \<Longrightarrow> rowPart_fixup rp ! i = sum_list (take (Suc i) rp)"
  unfolding rowPart_fixup_def using fixup_nth[of "length rp" rp i] by simp

lemma allgather_rowPart:
  "MPI_Allgather_into 1 counts (replicate (length counts + 1) 0) = 0 # counts"
  by (simp add: MPI_Allgather_into_def)

lemma build_rowPart_eq: "build_rowPart counts = rowPart_fixup (0 # counts)"
  unfolding build_rowPart_def Let_def allgather_rowPart ..

lemma build_rowPart_nth:
  assumes "i \<le> length counts"
  shows "build_rowPart counts ! i = sum_list (take i counts)"
  using assms by (simp add: build_rowPart_eq rowPart_fixup_nth)

lemma build_rowPart_length: "length (build_rowPart counts) = length counts + 1"
  by (simp add: build_rowPart_eq rowPart_fixup_length)

lemma sum_take_mono:
  "\<forall>c\<in>set counts. (0::int) \<le> c \<Longrightarrow> i \<le> j \<Longrightarrow> sum_list (take i counts) \<le> sum_list (take j counts)"
proof (induction counts arbitrary: i j)
  case Nil then show ?case by simp
next
  case (Cons c cs)
  show ?case
  proof (cases i)
    case 0
    have "\<And>x. x \<in> set (take j (c # cs)) \<Longrightarrow> 0 \<le> x"
      using Cons.prems(1) by (meson in_set_takeD)
    then have "0 \<le> sum_list (take j (c # cs))"
      by (rule sum_list_nonneg)
    with 0 show ?thesis by simp
  next
    case (Suc i')
    with Cons.prems obtain j' where "j = Suc j'" "i' \<le> j'" by (cases j) auto
    with Suc Cons show ?thesis by simp
  qed
qed

lemma nDevRows_nonneg: "0 \<le> nDevRows parts"
  unfolding nDevRows_def by (rule sum_list_nonneg) (auto simp add: loc_row_len_def)

lemma build_rowPart_sorted:
  assumes "\<forall>c\<in>set local_rows. 0 \<le> c"
  shows "sorted (build_rowPart local_rows)"
  unfolding sorted_iff_nth_mono
  using build_rowPart_length[of local_rows] build_rowPart_nth[of _ local_rows]
    sum_take_mono[OF assms] by auto

text \<open>
  C4. The table built from the row counts reported by the solve participants is their
  prefix sum with a leading zero: its first entry is 0 and its last entry is the sum of
  all counts. Every reported count is an \<^verbatim>\<open>nDevRows\<close>, a sum of absolute values, and for
  such counts the table is monotone non-decreasing. The counts \<open>[7, 5, 9]\<close> give
  \<open>[0, 7, 12, 21]\<close>.
\<close>

theorem rowPart_prefix_sum:
  "build_rowPart local_rows
     = map (\<lambda>i. sum_list (take i local_rows)) [0..<length local_rows + 1]
   \<and> hd (build_rowPart local_rows) = 0
   \<and> last (build_rowPart local_rows) = sum_list local_rows
   \<and> sorted (build_rowPart (map nDevRows groups))
   \<and> build_rowPart [7, 5, 9] = [0, 7, 12, 21]"
proof -
  let ?t = "build_rowPart local_rows"
  have len: "length ?t = length local_rows + 1" by (rule build_rowPart_length)
  have nth: "\<And>i. i \<le> length local_rows \<Longrightarrow> ?t ! i = sum_list (take i local_rows)"
    by (simp add: build_rowPart_nth)
  have eq: "?t = map (\<lambda>i. sum_list (take i local_rows)) [0..<length local_rows + 1]"
    by (rule nth_equalityI) (use len nth in \<open>auto simp del: upt_Suc\<close>)
  have ne: "?t \<noteq> []" using len by auto
  have h: "hd ?t = 0" using ne nth by (simp add: hd_conv_nth)
  have l: "last ?t = sum_list local_rows" using ne nth len by (simp add: last_conv_nth)
  have "\<forall>c\<in>set (map nDevRows groups). 0 \<le> c" by (auto simp add: nDevRows_nonneg)
  then have srt: "sorted (build_rowPart (map nDevRows groups))"
    by (rule build_rowPart_sorted)
  have sc: "build_rowPart [7, 5, 9] = [0, 7, 12, 21]"
    by (simp add: build_rowPart_def rowPart_fixup_def MPI_Allgather_into_def upt_rec)
  from eq h l srt sc show ?thesis by blast
qed

subsection \<open>Gather and scatter\<close>

lemma Adisp_loop_length: "length (Adisp_loop n Apart A) = length A"
proof -
  have "\<And>A. length (fold (\<lambda>i A. A[i := A ! (i - 1) + Apart ! (i - 1)]) is A) = length A" for "is"
    by (induction "is") auto
  then show ?thesis by (simp add: Adisp_loop_def)
qed

lemma Adisp_loop_Suc:
  "1 \<le> n \<Longrightarrow> Adisp_loop (Suc n) Apart A =
     (Adisp_loop n Apart A)[n := Adisp_loop n Apart A ! (n - 1) + Apart ! (n - 1)]"
  by (simp add: Adisp_loop_def)

lemma Adisp_loop_nth:
  assumes "n \<le> length A" "n \<le> length Apart + 1" "A ! 0 = 0"
  shows "i < n \<Longrightarrow> Adisp_loop n Apart A ! i = sum_list (take i Apart)"
    and "n \<le> i \<Longrightarrow> Adisp_loop n Apart A ! i = A ! i"
  using assms
proof (induction n arbitrary: i)
  case 0
  { case 1 then show ?case by simp
  next case 2 then show ?case by (simp add: Adisp_loop_def) }
next
  case (Suc n)
  { case 1
    show ?case
    proof (cases "n = 0")
      case True
      with 1 show ?thesis by (simp add: Adisp_loop_def)
    next
      case False
      then have n1: "1 \<le> n" by simp
      have a: "Adisp_loop n Apart A ! (n - 1) = sum_list (take (n - 1) Apart)"
        using Suc.IH(1)[of "n - 1"] 1 False by simp
      have t: "sum_list (take n Apart) = sum_list (take (n - 1) Apart) + Apart ! (n - 1)"
        using 1(3) False take_Suc_conv_app_nth[of "n - 1" Apart] by simp
      show ?thesis
      proof (cases "i = n")
        case True
        then show ?thesis using a t 1 by (simp add: Adisp_loop_Suc[OF n1] Adisp_loop_length)
      next
        case ne: False
        then show ?thesis using Suc.IH(1)[of i] 1
          by (simp add: Adisp_loop_Suc[OF n1] Adisp_loop_length)
      qed
    qed
  next
    case 2
    show ?case
    proof (cases "n = 0")
      case True
      then show ?thesis by (simp add: Adisp_loop_def)
    next
      case False
      then have n1: "1 \<le> n" by simp
      show ?thesis using Suc.IH(2)[of i] 2
        by (simp add: Adisp_loop_Suc[OF n1] Adisp_loop_length)
    qed }
qed

lemma write_at_length: "off + length xs \<le> length buf \<Longrightarrow> length (write_at off xs buf) = length buf"
  by (simp add: write_at_def)

lemma MPI_Gatherv_concat:
  assumes "length xs \<le> length cs" "length xs \<le> length ds"
    and "\<forall>i<length xs. cs ! i = length (xs ! i) \<and> ds ! i = off + sum_list (map length (take i xs))"
    and "off + length (concat xs) \<le> length buf"
  shows "MPI_Gatherv xs buf cs ds
           = Inr (take off buf @ concat xs @ drop (off + length (concat xs)) buf)"
  using assms
proof (induction xs arbitrary: buf cs ds off)
  case Nil
  then show ?case by simp
next
  case (Cons x xs)
  from Cons.prems obtain c cs' where cs: "cs = c # cs'" by (cases cs) auto
  from Cons.prems obtain d ds' where ds: "ds = d # ds'" by (cases ds) auto
  have c: "c = length x" and d: "d = off" using Cons.prems(3) cs ds by auto
  let ?buf = "write_at off x buf"
  have l: "length ?buf = length buf" using Cons.prems(4) by (simp add: write_at_length)
  have ih: "MPI_Gatherv xs ?buf cs' ds'
     = Inr (take (off + length x) ?buf @ concat xs @ drop (off + length x + length (concat xs)) ?buf)"
  proof (rule Cons.IH)
    show "length xs \<le> length cs'" "length xs \<le> length ds'" using Cons.prems cs ds by auto
    show "\<forall>i<length xs. cs' ! i = length (xs ! i) \<and>
        ds' ! i = off + length x + sum_list (map length (take i xs))"
    proof (intro allI impI)
      fix i assume "i < length xs"
      then show "cs' ! i = length (xs ! i) \<and> ds' ! i = off + length x + sum_list (map length (take i xs))"
        using Cons.prems(3)[rule_format, of "Suc i"] cs ds by simp
    qed
    show "off + length x + length (concat xs) \<le> length ?buf" using Cons.prems(4) l by simp
  qed
  have t: "take (off + length x) ?buf = take off buf @ x"
    using Cons.prems(4) by (simp add: write_at_def)
  have dr: "drop (off + length x + length (concat xs)) ?buf
      = drop (off + length (concat (x # xs))) buf"
    using Cons.prems(4) by (simp add: write_at_def add.commute add.left_commute)
  show ?case using Cons.prems(4) ih t dr by (simp add: cs ds c d)
qed

lemma MPI_Scatterv_concat:
  assumes "length outs = length xs" "\<forall>i<length xs. length (outs ! i) = length (xs ! i)"
    and "length xs \<le> length cs" "length xs \<le> length ds"
    and "\<forall>i<length xs. cs ! i = length (xs ! i) \<and> ds ! i = off + sum_list (map length (take i xs))"
    and "g = pre @ concat xs @ post" "length pre = off"
  shows "MPI_Scatterv g cs ds outs = Inr xs"
  using assms
proof (induction xs arbitrary: outs cs ds off pre)
  case Nil
  then show ?case by simp
next
  case (Cons x xs)
  from Cons.prems obtain c cs' where cs: "cs = c # cs'" by (cases cs) auto
  from Cons.prems obtain d ds' where ds: "ds = d # ds'" by (cases ds) auto
  from Cons.prems obtain out outs' where outs: "outs = out # outs'" by (cases outs) auto
  have c: "c = length x" and d: "d = off" using Cons.prems(5) cs ds by auto
  have lo: "length out = length x" using Cons.prems(2) outs by auto
  have ih: "MPI_Scatterv g cs' ds' outs' = Inr xs"
  proof (rule Cons.IH[where off = "off + length x" and pre = "pre @ x"])
    show "length outs' = length xs" using Cons.prems(1) outs by simp
    show "\<forall>i<length xs. length (outs' ! i) = length (xs ! i)"
      using Cons.prems(2) outs by auto
    show "length xs \<le> length cs'" "length xs \<le> length ds'" using Cons.prems cs ds by auto
    show "\<forall>i<length xs. cs' ! i = length (xs ! i) \<and>
        ds' ! i = off + length x + sum_list (map length (take i xs))"
    proof (intro allI impI)
      fix i assume "i < length xs"
      then show "cs' ! i = length (xs ! i) \<and> ds' ! i = off + length x + sum_list (map length (take i xs))"
        using Cons.prems(5)[rule_format, of "Suc i"] cs ds by simp
    qed
    show "g = (pre @ x) @ concat xs @ post" using Cons.prems(6) by simp
    show "length (pre @ x) = off + length x" using Cons.prems(7) by simp
  qed
  have tk: "take (length x) (drop off g) = x" using Cons.prems(6,7) by simp
  have ln: "\<not> length g < off + length x" using Cons.prems(6,7) by simp
  show ?case using ih tk ln lo by (simp add: cs ds outs c d write_at_def)
qed

text \<open>
  C6. For every group of per-rank vectors, \<^verbatim>\<open>GatherArray\<close> into a leader buffer that can
  hold them builds the descriptor (the lengths, and their running sums as displacements)
  and the flat buffer, and \<^verbatim>\<open>ScatterArray\<close> of that buffer with the same descriptor, into
  receive arrays of the original lengths, hands every rank its original array back.
\<close>

theorem gather_scatter_roundtrip:
  assumes "inArrs \<noteq> []" "MPI_SZ = length inArrs"
    and "MPI_SZ \<le> length Apart" "MPI_SZ \<le> length Adisp"
    and "length (concat inArrs) \<le> length outArr"
    and "map length recv = map length inArrs"
  shows "\<exists>all Apart1 Adisp1.
           GatherArray inArrs outArr MPI_SZ Apart Adisp = Inr (all, Apart1, Adisp1)
         \<and> take MPI_SZ Apart1 = map length inArrs
         \<and> take MPI_SZ Adisp1 = map (\<lambda>i. sum_list (map length (take i inArrs))) [0..<MPI_SZ]
         \<and> take (length (concat inArrs)) all = concat inArrs
         \<and> ScatterArray all recv Apart1 Adisp1 = Inr inArrs"
proof -
  let ?n = "length inArrs"
  let ?A = "MPI_Allgather_into 0 (map length inArrs) Apart"
  let ?D = "Adisp_loop MPI_SZ ?A (Adisp[0 := 0])"
  have A: "?A = map length inArrs @ drop ?n Apart" by (simp add: MPI_Allgather_into_def)
  have lA: "length ?A = length Apart" using assms by (simp add: A)
  have An: "\<And>i. i < ?n \<Longrightarrow> ?A ! i = length (inArrs ! i)" by (simp add: A nth_append)
  have tA: "\<And>i. i \<le> ?n \<Longrightarrow> take i ?A = map length (take i inArrs)"
    by (simp add: A take_map)
  have n0: "0 < ?n" using assms(1) by simp
  have lA0: "0 < length Adisp" using assms(1,2,4) by (cases Adisp) auto
  then have z: "(Adisp[0 := 0]) ! 0 = 0" by simp
  have Dn: "\<And>i. i < ?n \<Longrightarrow> ?D ! i = sum_list (map length (take i inArrs))"
    using Adisp_loop_nth(1)[of MPI_SZ "Adisp[0 := 0]" ?A, OF _ _ z] assms n0 lA tA by simp
  have lD: "length ?D = length Adisp" by (simp add: Adisp_loop_length)
  have cd: "\<forall>i<?n. ?A ! i = length (inArrs ! i) \<and> ?D ! i = 0 + sum_list (map length (take i inArrs))"
    using An Dn by simp
  let ?g = "take 0 outArr @ concat inArrs @ drop (0 + length (concat inArrs)) outArr"
  have g: "MPI_Gatherv inArrs outArr ?A ?D = Inr ?g"
    by (rule MPI_Gatherv_concat) (use assms lA lD cd in auto)
  have run: "GatherArray inArrs outArr MPI_SZ Apart Adisp = Inr (?g, ?A, ?D)"
  proof -
    have "\<not> length Adisp < max 1 MPI_SZ" using assms(2,4) lA0 by linarith
    moreover have "\<not> length ?A + 1 < MPI_SZ" using assms(2,3) lA by simp
    moreover have "\<not> length Apart < length inArrs" using assms(2,3) by simp
    ultimately show ?thesis
      unfolding GatherArray_def Let_def using g by (simp del: One_nat_def)
  qed
  have sc: "MPI_Scatterv ?g ?A ?D recv = Inr inArrs"
  proof (rule MPI_Scatterv_concat[where off = 0 and pre = "[]" and post = "drop (length (concat inArrs)) outArr"])
    show "length recv = ?n" using assms(6) by (metis length_map)
    show "\<forall>i<?n. length (recv ! i) = length (inArrs ! i)"
      using assms(6) by (metis length_map nth_map)
    show "?n \<le> length ?A" "?n \<le> length ?D" using assms lA lD by simp_all
    show "\<forall>i<?n. ?A ! i = length (inArrs ! i) \<and> ?D ! i = 0 + sum_list (map length (take i inArrs))"
      by (rule cd)
  qed simp_all
  have t1: "take MPI_SZ ?A = map length inArrs" using assms by (simp add: A)
  have t2: "take MPI_SZ ?D = map (\<lambda>i. sum_list (map length (take i inArrs))) [0..<MPI_SZ]"
    by (rule nth_equalityI) (use assms lD Dn in auto)
  have t3: "take (length (concat inArrs)) ?g = concat inArrs" by simp
  show ?thesis using run t1 t2 t3 sc unfolding ScatterArray_def by blast
qed

theorem gather_scatter_roundtrip_witness:
  "GatherArray [[1, 2], [3], [4, 5, 6::int]] (replicate 6 0) 3 [0, 0, 0] [0, 0, 0]
     = Inr ([1, 2, 3, 4, 5, 6], [2, 1, 3], [0, 2, 3])
   \<and> ScatterArray [1, 2, 3, 4, 5, 6::int] [[0, 0], [0], [0, 0, 0]] [2, 1, 3] [0, 2, 3]
     = Inr [[1, 2], [3], [4, 5, 6]]"
proof -
  have h: "[[1, 2], [3], [4, 5, 6::int]] \<noteq> []" "(3::nat) = length [[1, 2], [3], [4, 5, 6::int]]"
    "(3::nat) \<le> length [0, 0, 0::nat]" "(3::nat) \<le> length [0, 0, 0::nat]"
    "length (concat [[1, 2], [3], [4, 5, 6::int]]) \<le> length (replicate 6 (0::int))"
    "map length [[0, 0], [0], [0, 0, 0::int]] = map length [[1, 2], [3], [4, 5, 6::int]]"
    by simp_all
  have g: "GatherArray [[1, 2], [3], [4, 5, 6::int]] (replicate 6 0) 3 [0, 0, 0] [0, 0, 0]
     = Inr ([1, 2, 3, 4, 5, 6], [2, 1, 3], [0, 2, 3])"
    by (simp add: GatherArray_def Adisp_loop_def MPI_Allgather_into_def write_at_def
        Let_def upt_rec numeral_eq_Suc)
  from gather_scatter_roundtrip[OF h] obtain all Apart1 Adisp1 where
    "GatherArray [[1, 2], [3], [4, 5, 6::int]] (replicate 6 0) 3 [0, 0, 0] [0, 0, 0]
       = Inr (all, Apart1, Adisp1)"
    "ScatterArray all [[0, 0], [0], [0, 0, 0]] Apart1 Adisp1 = Inr [[1, 2], [3], [4, 5, 6]]"
    by blast
  with g show ?thesis by simp
qed

subsection \<open>\<^verbatim>\<open>solve\<close>\<close>

lemma split_by_lengths:
  "sum_list ns \<le> length buf \<Longrightarrow> map length (split_by ns buf) = ns"
  by (induction ns arbitrary: buf) auto

lemma concat_split_by:
  "sum_list ns \<le> length buf \<Longrightarrow> concat (split_by ns buf) = take (sum_list ns) buf"
proof (induction ns arbitrary: buf)
  case Nil
  then show ?case by simp
next
  case (Cons n ns)
  then have "concat (split_by ns (drop n buf)) = take (sum_list ns) (drop n buf)" by simp
  then show ?case by (simp add: take_add)
qed

lemma GatherArray_run:
  assumes "inArrs \<noteq> []" "MPI_SZ = length inArrs"
    and "MPI_SZ \<le> length Apart" "MPI_SZ \<le> length Adisp"
    and "length (concat inArrs) \<le> length outArr"
  shows "\<exists>A D. GatherArray inArrs outArr MPI_SZ Apart Adisp
             = Inr (concat inArrs @ drop (length (concat inArrs)) outArr, A, D)
           \<and> length inArrs \<le> length A \<and> length inArrs \<le> length D
           \<and> (\<forall>i<length inArrs. A ! i = length (inArrs ! i)
                  \<and> D ! i = 0 + sum_list (map length (take i inArrs)))"
proof -
  let ?n = "length inArrs"
  let ?A = "MPI_Allgather_into 0 (map length inArrs) Apart"
  let ?D = "Adisp_loop MPI_SZ ?A (Adisp[0 := 0])"
  have A: "?A = map length inArrs @ drop ?n Apart" by (simp add: MPI_Allgather_into_def)
  have lA: "length ?A = length Apart" using assms by (simp add: A)
  have An: "\<And>i. i < ?n \<Longrightarrow> ?A ! i = length (inArrs ! i)" by (simp add: A nth_append)
  have tA: "\<And>i. i \<le> ?n \<Longrightarrow> take i ?A = map length (take i inArrs)"
    by (simp add: A take_map)
  have n0: "0 < ?n" using assms(1) by simp
  have lA0: "0 < length Adisp" using assms(1,2,4) by (cases Adisp) auto
  then have z: "(Adisp[0 := 0]) ! 0 = 0" by simp
  have Dn: "\<And>i. i < ?n \<Longrightarrow> ?D ! i = sum_list (map length (take i inArrs))"
    using Adisp_loop_nth(1)[of MPI_SZ "Adisp[0 := 0]" ?A, OF _ _ z] assms n0 lA tA by simp
  have lD: "length ?D = length Adisp" by (simp add: Adisp_loop_length)
  have cd: "\<forall>i<?n. ?A ! i = length (inArrs ! i) \<and> ?D ! i = 0 + sum_list (map length (take i inArrs))"
    using An Dn by simp
  let ?g = "take 0 outArr @ concat inArrs @ drop (0 + length (concat inArrs)) outArr"
  have g: "MPI_Gatherv inArrs outArr ?A ?D = Inr ?g"
    by (rule MPI_Gatherv_concat) (use assms lA lD cd in auto)
  have run: "GatherArray inArrs outArr MPI_SZ Apart Adisp = Inr (?g, ?A, ?D)"
  proof -
    have "\<not> length Adisp < max 1 MPI_SZ" using assms(2,4) lA0 by linarith
    moreover have "\<not> length ?A + 1 < MPI_SZ" using assms(2,3) lA by simp
    moreover have "\<not> length Apart < length inArrs" using assms(2,3) by simp
    ultimately show ?thesis
      unfolding GatherArray_def Let_def using g by (simp del: One_nat_def)
  qed
  have "?n \<le> length ?A" "?n \<le> length ?D" using assms lA lD by simp_all
  with run cd show ?thesis by auto
qed

lemma MPI_Scatterv_split:
  assumes "length outs = length xs" "\<forall>i<length xs. length (outs ! i) = length (xs ! i)"
    and "length xs \<le> length cs" "length xs \<le> length ds"
    and "\<forall>i<length xs. cs ! i = length (xs ! i) \<and> ds ! i = 0 + sum_list (map length (take i xs))"
    and "length (concat xs) \<le> length g"
  shows "MPI_Scatterv g cs ds outs = Inr (split_by (map length xs) g)"
proof -
  let ?ys = "split_by (map length xs) g"
  have t: "sum_list (map length xs) \<le> length g" using assms(6) by (simp add: length_concat)
  have ml: "map length ?ys = map length xs" by (rule split_by_lengths[OF t])
  then have ly: "length ?ys = length xs" by (metis length_map)
  have li: "\<And>i. i < length xs \<Longrightarrow> length (?ys ! i) = length (xs ! i)"
    using ml ly by (metis nth_map)
  have ti: "\<And>i. map length (take i ?ys) = map length (take i xs)"
    using ml by (metis take_map)
  have c: "g = [] @ concat ?ys @ drop (sum_list (map length xs)) g"
    using concat_split_by[OF t] by simp
  show ?thesis
  proof (rule MPI_Scatterv_concat[where off = 0 and pre = "[]"
        and post = "drop (sum_list (map length xs)) g"])
    show "length outs = length ?ys" using assms(1) ly by simp
    show "\<forall>i<length ?ys. length (outs ! i) = length (?ys ! i)" using assms(2) ly li by simp
    show "length ?ys \<le> length cs" "length ?ys \<le> length ds" using assms(3,4) ly by simp_all
    show "\<forall>i<length ?ys. cs ! i = length (?ys ! i) \<and> ds ! i = 0 + sum_list (map length (take i ?ys))"
      using assms(5) ly li ti by simp
    show "g = [] @ concat ?ys @ drop (sum_list (map length xs)) g" by (rule c)
  qed simp
qed

text \<open>
  C9. Let the engine report a status other than success, on a leader that takes part in
  the solve, with \<^verbatim>\<open>all_X\<close> and \<^verbatim>\<open>all_B\<close> large enough for the gathered vectors. Then \<^verbatim>\<open>solve\<close>
  returns normally: it has gathered \<open>X\<close> and \<open>B\<close>, uploaded both, printed the diagnostic,
  downloaded the engine's solution over \<^verbatim>\<open>all_X\<close> and scattered that buffer, so that every
  rank holds its piece of the engine's solution in \<open>X\<close>. The run with status success
  ends in the same state but for the printed line.
\<close>

theorem solve_status_reported:
  assumes st: "status \<noteq> AMGX_SOLVE_SUCCESS" and gw: "\<not> gpuWorld_is_null s"
    and ne: "X s \<noteq> []" and lb: "length (B s) = length (X s)"
    and fx: "length (concat (X s)) \<le> m_local_rows s"
    and fb: "length (concat (B s)) \<le> m_local_rows s"
    and aX: "all_X = concat (X s) @ drop (length (concat (X s))) (map uninit_X [0..<m_local_rows s])"
    and aB: "all_B = concat (B s) @ drop (length (concat (B s))) (map uninit_B [0..<m_local_rows s])"
    and sol: "sol = engine all_B all_X"
  shows "solve (\<lambda>rhs p. (status, engine rhs p)) uninit_X uninit_B s
       = Inr (s\<lparr>AmgXP_data := sol, AmgXRHS_data := all_B,
                stdout := stdout s @ [solve_failed_msg],
                X := split_by (map length (X s)) (AMGX_vector_download sol all_X)\<rparr>)
     \<and> solve (\<lambda>rhs p. (AMGX_SOLVE_SUCCESS, engine rhs p)) uninit_X uninit_B s
       = Inr (s\<lparr>AmgXP_data := sol, AmgXRHS_data := all_B,
                X := split_by (map length (X s)) (AMGX_vector_download sol all_X)\<rparr>)"
proof -
  let ?n = "length (X s)"
  let ?m = "m_local_rows s"
  let ?bX = "map uninit_X [0..<?m]" and ?bB = "map uninit_B [0..<?m]"
  have nB: "B s \<noteq> []" using ne lb by auto
  from GatherArray_run[OF ne refl, of "replicate ?n 0" "replicate ?n 0" ?bX] fx
  obtain AX DX where
    gX: "GatherArray (X s) ?bX ?n (replicate ?n 0) (replicate ?n 0) = Inr (all_X, AX, DX)"
    and dX: "?n \<le> length AX" "?n \<le> length DX"
      "\<forall>i<?n. AX ! i = length (X s ! i) \<and> DX ! i = 0 + sum_list (map length (take i (X s)))"
    unfolding aX by auto
  from GatherArray_run[OF nB lb[symmetric], of "replicate ?n 0" "replicate ?n 0" ?bB] fb lb
  obtain AB DB where
    gB: "GatherArray (B s) ?bB ?n (replicate ?n 0) (replicate ?n 0) = Inr (all_B, AB, DB)"
    unfolding aB by auto
  have lX: "length all_X = ?m" using fx by (simp add: aX)
  let ?dl = "AMGX_vector_download sol all_X"
  have ld: "length ?dl = ?m" using lX by (simp add: AMGX_vector_download_def write_at_def)
  have sc: "ScatterArray ?dl (X s) AX DX = Inr (split_by (map length (X s)) ?dl)"
    unfolding ScatterArray_def
    by (rule MPI_Scatterv_split) (use dX fx ld in simp_all)
  show ?thesis
    unfolding solve_def Let_def gX gB
    using st gw sc sol by (simp add: AMGX_SOLVE_SUCCESS_def)
qed

text \<open>
  An engine that reports status 7 and leaves \<open>2 v + 1\<close> for every entry \<open>v\<close> of the
  right-hand side: the ranks receive \<open>[21, 41]\<close> and \<open>[61]\<close>.
\<close>

theorem solve_status_reported_witness:
  "(7::int) \<noteq> AMGX_SOLVE_SUCCESS \<and> \<not> gpuWorld_is_null example_group
   \<and> solve (\<lambda>rhs p. (7, map (\<lambda>v. 2 * v + 1) rhs)) (\<lambda>i. 0) (\<lambda>i. 0) example_group
       = Inr (example_group\<lparr>AmgXP_data := [21, 41, 61], AmgXRHS_data := [10, 20, 30],
                stdout := [solve_failed_msg], X := [[21, 41], [61]]\<rparr>)"
proof -
  have h: "(7::int) \<noteq> AMGX_SOLVE_SUCCESS" "\<not> gpuWorld_is_null example_group"
    "X example_group \<noteq> []" "length (B example_group) = length (X example_group)"
    "length (concat (X example_group)) \<le> m_local_rows example_group"
    "length (concat (B example_group)) \<le> m_local_rows example_group"
    by (simp_all add: AMGX_SOLVE_SUCCESS_def example_group_def)
  have a: "[0, 0, 0::int] = concat (X example_group)
        @ drop (length (concat (X example_group))) (map (\<lambda>i. 0) [0..<m_local_rows example_group])"
    "[10, 20, 30::int] = concat (B example_group)
        @ drop (length (concat (B example_group))) (map (\<lambda>i. 0) [0..<m_local_rows example_group])"
    by (simp_all add: example_group_def)
  have s: "[21, 41, 61::int] = (\<lambda>rhs p. map (\<lambda>v. 2 * v + 1) rhs) [10, 20, 30] [0, 0, 0::int]"
    by simp
  have d: "split_by (map length (X example_group)) (AMGX_vector_download [21, 41, 61::int] [0, 0, 0])
      = [[21, 41], [61]]"
    by (simp add: example_group_def AMGX_vector_download_def write_at_def)
  from solve_status_reported[where engine = "\<lambda>rhs p. map (\<lambda>v. 2 * v + 1) rhs"
      and uninit_X = "\<lambda>i. 0" and uninit_B = "\<lambda>i. 0", OF h a s] have
    "solve (\<lambda>rhs p. (7, map (\<lambda>v. 2 * v + 1) rhs)) (\<lambda>i. 0) (\<lambda>i. 0) example_group
       = Inr (example_group\<lparr>AmgXP_data := [21, 41, 61], AmgXRHS_data := [10, 20, 30],
                stdout := stdout example_group @ [solve_failed_msg],
                X := split_by (map length (X example_group))
                       (AMGX_vector_download [21, 41, 61] [0, 0, 0])\<rparr>)"
    by blast
  then show ?thesis using h(1,2) d by (simp add: example_group_def)
qed

text \<open>
  C10. Whenever \<^verbatim>\<open>solve(X, B)\<close> returns, the right-hand side \<open>B\<close> of every rank is what it
  was before the call.
\<close>

theorem solve_keeps_B:
  assumes "solve AMGX_solver_solve uninit_X uninit_B s = Inr s'"
  shows "B s' = B s"
  using assms
  by (auto simp add: solve_def Let_def split: sum.splits prod.splits if_splits)

theorem solve_keeps_B_witness:
  "solve (\<lambda>rhs p. (0, rhs)) (\<lambda>i. 0) (\<lambda>i. 0) example_group
       = Inr (example_group\<lparr>X := [[10, 20], [30]], AmgXP_data := [10, 20, 30],
                AmgXRHS_data := [10, 20, 30]\<rparr>)
   \<and> B (example_group\<lparr>X := [[10, 20], [30]], AmgXP_data := [10, 20, 30],
                AmgXRHS_data := [10, 20, 30]\<rparr>) = [[10, 20], [30]]"
proof -
  have ok: "solve (\<lambda>rhs p. (0, rhs)) (\<lambda>i. 0) (\<lambda>i. 0) example_group
       = Inr (example_group\<lparr>X := [[10, 20], [30]], AmgXP_data := [10, 20, 30],
                AmgXRHS_data := [10, 20, 30]\<rparr>)"
    by (simp add: solve_def example_group_def GatherArray_def ScatterArray_def Adisp_loop_def
        MPI_Allgather_into_def write_at_def AMGX_vector_download_def Let_def upt_rec
        AMGX_SOLVE_SUCCESS_def)
  from solve_keeps_B[OF ok] show ?thesis using ok by (simp add: example_group_def)
qed

subsection \<open>The row-pointer merge\<close>

lemma find_zeros_none:
  "\<forall>idx\<in>set idxs. a ! idx \<noteq> 0 \<Longrightarrow> find_zeros a idxs (c, z) = Inr (c, z)"
  by (induction idxs) auto

lemma find_zeros_append:
  "find_zeros a (xs @ ys) (c, z) = bind_err (find_zeros a xs (c, z)) (find_zeros a ys)"
  by (induction xs arbitrary: c z) (auto simp add: bind_err_def)

lemma find_zeros_bound:
  "c + length (filter (\<lambda>idx. a ! idx = 0) idxs) \<le> length z \<Longrightarrow>
   \<exists>c' z'. find_zeros a idxs (c, z) = Inr (c', z') \<and> length z' = length z
          \<and> (\<forall>i<c. z' ! i = z ! i)"
proof (induction idxs arbitrary: c z)
  case Nil
  then show ?case by simp
next
  case (Cons idx idxs)
  show ?case
  proof (cases "a ! idx = 0")
    case True
    with Cons.prems have c: "c < length z"
      and b: "(c + 1) + length (filter (\<lambda>idx. a ! idx = 0) idxs) \<le> length (z[c := Some (idx - 1)])"
      by simp_all
    from Cons.IH[OF b] obtain c' z' where
      "find_zeros a idxs (c + 1, z[c := Some (idx - 1)]) = Inr (c', z')"
      "length z' = length z" "\<forall>i<c + 1. z' ! i = z[c := Some (idx - 1)] ! i"
      by auto
    then show ?thesis using True c by auto
  next
    case False
    with Cons.prems have b: "c + length (filter (\<lambda>idx. a ! idx = 0) idxs) \<le> length z" by simp
    from Cons.IH[OF b] show ?thesis using False by simp
  qed
qed

lemma find_zeros_first:
  assumes "\<forall>idx\<in>set xs. a ! idx \<noteq> 0" "a ! p = 0"
    and "c + 1 + length (filter (\<lambda>idx. a ! idx = 0) ys) \<le> length z"
  shows "\<exists>c' z'. find_zeros a (xs @ p # ys) (c, z) = Inr (c', z') \<and> length z' = length z
          \<and> z' ! c = Some (p - 1) \<and> (\<forall>i<c. z' ! i = z ! i)"
proof -
  have c: "c < length z" using assms(3) by simp
  have b: "(c + 1) + length (filter (\<lambda>idx. a ! idx = 0) ys) \<le> length (z[c := Some (p - 1)])"
    using assms(3) by simp
  from find_zeros_bound[OF b] obtain c' z' where
    r: "find_zeros a ys (c + 1, z[c := Some (p - 1)]) = Inr (c', z')"
    "length z' = length z" "\<forall>i<c + 1. z' ! i = z[c := Some (p - 1)] ! i"
    by auto
  have "find_zeros a (xs @ p # ys) (c, z) = Inr (c', z')"
    using assms(1,2) c r(1) by (simp add: find_zeros_append find_zeros_none bind_err_def)
  moreover have "z' ! c = Some (p - 1)" using r(3) c by simp
  moreover have "\<forall>i<c. z' ! i = z ! i" using r(3) by simp
  ultimately show ?thesis using r(2) by blast
qed

lemma zeros_in_range_le:
  assumes "hi \<le> length a"
  shows "length (filter (\<lambda>idx. a ! idx = (0::int)) [lo..<hi]) \<le> length (filter (\<lambda>v. v = 0) (drop lo a))"
proof -
  have m: "map (\<lambda>idx. a ! idx) [lo..<hi] = take (hi - lo) (drop lo a)"
    by (rule nth_equalityI) (use assms in auto)
  have "length (filter (\<lambda>idx. a ! idx = 0) [lo..<hi])
      = length (filter (\<lambda>v. v = 0) (map (\<lambda>idx. a ! idx) [lo..<hi]))"
    by (simp add: filter_map comp_def)
  also have "\<dots> = length (filter (\<lambda>v. v = 0) (take (hi - lo) (drop lo a)))" by (simp only: m)
  also have "\<dots> \<le> length (filter (\<lambda>v. v = 0) (drop lo a))"
  proof -
    have "filter (\<lambda>v. v = 0) (drop lo a)
        = filter (\<lambda>v. v = 0) (take (hi - lo) (drop lo a)) @ filter (\<lambda>v. v = 0) (drop (hi - lo) (drop lo a))"
      by (metis append_take_drop_id filter_append)
    then show ?thesis by simp
  qed
  finally show ?thesis .
qed

lemma bump_region:
  "fold (\<lambda>idx a. a[idx := a ! (idx - 1) + (a ! (idx + 1) - a ! idx)])
        [length pre + 1..<length pre + 1 + length vs] (pre @ p # v0 # vs @ post)
   = (pre :: int list) @ p # map (\<lambda>v. p + (v - v0)) vs @ last (v0 # vs) # post"
proof (induction vs arbitrary: pre p v0)
  case Nil
  then show ?case by simp
next
  case (Cons v vs)
  have up: "[length pre + 1..<length pre + 1 + length (v # vs)]
      = (length pre + 1) # [length (pre @ [p]) + 1..<length (pre @ [p]) + 1 + length vs]"
    using upt_conv_Cons[of "length pre + 1" "length pre + 1 + length (v # vs)"] by simp
  have st: "(pre @ p # v0 # (v # vs) @ post)[length pre + 1 :=
        (pre @ p # v0 # (v # vs) @ post) ! (length pre + 1 - 1)
        + ((pre @ p # v0 # (v # vs) @ post) ! (length pre + 1 + 1) - (pre @ p # v0 # (v # vs) @ post) ! (length pre + 1))]
      = (pre @ [p]) @ (p + (v - v0)) # v # vs @ post"
    by (simp add: nth_append list_update_append)
  note ih = Cons.IH[of "pre @ [p]" "p + (v - v0)" v]
  show ?case
    unfolding up fold_Cons comp_def st ih by auto
qed

lemma shift_region:
  "fold (\<lambda>idx a. a[idx := a ! (idx + 1)]) [length pre..<length pre + length post] (pre @ x # post)
   = pre @ post @ [last (x # post)]"
proof (induction post arbitrary: pre x)
  case Nil
  then show ?case by simp
next
  case (Cons y ys)
  have up: "[length pre..<length pre + length (y # ys)]
      = length pre # [length (pre @ [y])..<length (pre @ [y]) + length ys]"
    using upt_conv_Cons[of "length pre" "length pre + length (y # ys)"] by simp
  have st: "(pre @ x # y # ys)[length pre := (pre @ x # y # ys) ! (length pre + 1)]
      = (pre @ [y]) @ y # ys"
    by (simp add: nth_append list_update_append)
  note ih = Cons.IH[of "pre @ [y]" y]
  show ?case
    unfolding up fold_Cons comp_def st ih by simp
qed


lemma fragment_cases:
  assumes "fragment F"
  obtains f where "F = 0 # f" "f \<noteq> []" "list_all (\<lambda>v. 0 < v) f" "sorted (0 # f)"
proof -
  from assms obtain x f where F: "F = x # f" by (cases F) (auto simp add: fragment_def)
  with assms have "x = 0" "f \<noteq> []" "list_all (\<lambda>v. 0 < v) f" "sorted (0 # f)"
    by (auto simp add: fragment_def)
  with F that show thesis by blast
qed

lemma pos_last: "xs \<noteq> [] \<Longrightarrow> list_all (\<lambda>v. (0::int) < v) xs \<Longrightarrow> 0 < last xs"
  by (simp add: list_all_iff)

lemma fragment_last: "fragment F \<Longrightarrow> 0 < last F"
  by (erule fragment_cases) (simp add: pos_last)

lemma zeros_pos: "list_all (\<lambda>v. (0::int) < v) xs \<Longrightarrow> filter (\<lambda>v. v = 0) xs = []"
  by (induction xs) auto

lemma zeros_fragments:
  "list_all fragment fs \<Longrightarrow> length (filter (\<lambda>v. v = 0) (concat fs)) = length fs"
proof (induction fs)
  case Nil
  then show ?case by simp
next
  case (Cons F fs)
  then have "fragment F" by simp
  then show ?case using Cons by (elim fragment_cases) (simp add: zeros_pos)
qed

lemma concat_fragments_last:
  "list_all fragment fs \<Longrightarrow> fs \<noteq> [] \<Longrightarrow> 0 < last (concat fs)"
proof (induction fs)
  case Nil
  then show ?case by simp
next
  case (Cons F fs)
  then have F: "fragment F" by simp
  then have ne: "F \<noteq> []" by (auto simp add: fragment_def)
  show ?case
  proof (cases "fs = []")
    case True
    then show ?thesis using fragment_last[OF F] by simp
  next
    case False
    then have c: "concat fs \<noteq> []" using Cons.prems
      by (cases fs) (auto simp add: fragment_def)
    then show ?thesis using Cons False by simp
  qed
qed

lemma nth_pos_nonzero:
  "list_all (\<lambda>v. (0::int) < v) (tl M) \<Longrightarrow> 1 \<le> i \<Longrightarrow> i < length M \<Longrightarrow> M ! i \<noteq> 0"
  by (cases M) (auto simp add: list_all_length nth_Cons split: nat.splits)


lemma upt_split_at: "lo \<le> p \<Longrightarrow> p < hi \<Longrightarrow> [lo..<hi] = [lo..<p] @ p # [p + 1..<hi]"
  using upt_add_eq_append[of lo p "hi - p"] upt_conv_Cons[of p hi] by simp

lemma scan_one:
  assumes M: "1 \<le> length M" "list_all (\<lambda>v. 0 < v) (tl M)"
    and t: "list_all (\<lambda>v. 0 < v) t" "t \<noteq> []" and z: "2 \<le> length z"
  shows "\<exists>c' z'. find_zeros (M @ 0 # t) [1..<length (M @ 0 # t) - 1] (1, z) = Inr (c', z')
           \<and> length z' = length z \<and> z' ! 1 = Some (length M - 1) \<and> z' ! 0 = z ! 0"
proof -
  let ?a = "M @ 0 # t"
  have sp: "[1..<length ?a - 1] = [1..<length M] @ length M # [length M + 1..<length ?a - 1]"
    using M t by (intro upt_split_at) (auto simp add: Suc_le_eq)
  have n1: "\<forall>idx\<in>set [1..<length M]. ?a ! idx \<noteq> 0"
    using nth_pos_nonzero[OF M(2)] by (auto simp add: nth_append)
  have p: "?a ! length M = 0" by simp
  have "\<forall>idx\<in>set [length M + 1..<length ?a - 1]. ?a ! idx \<noteq> 0"
  proof
    fix idx assume "idx \<in> set [length M + 1..<length ?a - 1]"
    then obtain j where j: "idx = length M + Suc j" "j < length t"
      by (auto simp add: le_iff_add)
    have "?a ! idx = t ! j" unfolding j(1) nth_append_length_plus by simp
    moreover have "0 < t ! j" using t(1) j(2) by (simp add: list_all_length)
    ultimately show "?a ! idx \<noteq> 0" by simp
  qed
  then have "filter (\<lambda>idx. ?a ! idx = 0) [length M + 1..<length ?a - 1] = []"
    by (simp add: filter_empty_conv)
  then have b: "1 + 1 + length (filter (\<lambda>idx. ?a ! idx = 0) [length M + 1..<length ?a - 1]) \<le> length z"
    using z by simp
  from find_zeros_first[OF n1 p b] show ?thesis unfolding sp by auto
qed

lemma scan_two:
  assumes M: "1 \<le> length M" "list_all (\<lambda>v. 0 < v) (tl M)"
    and f: "list_all (\<lambda>v. 0 < v) f" and t: "t \<noteq> []"
    and z: "length (filter (\<lambda>v. v = 0) t) + 3 \<le> length z"
  shows "\<exists>c' z'. find_zeros (M @ 0 # f @ 0 # t) [1..<length (M @ 0 # f @ 0 # t) - 1] (1, z)
             = Inr (c', z')
           \<and> length z' = length z \<and> z' ! 1 = Some (length M - 1)
           \<and> z' ! 2 = Some (length M + length f) \<and> z' ! 0 = z ! 0"
proof -
  let ?a = "M @ 0 # f @ 0 # t"
  let ?p2 = "length M + 1 + length f"
  have sp1: "[1..<length ?a - 1] = [1..<length M] @ length M # [length M + 1..<length ?a - 1]"
    using M t by (intro upt_split_at) (auto simp add: Suc_le_eq)
  have sp2: "[length M + 1..<length ?a - 1]
      = [length M + 1..<?p2] @ ?p2 # [?p2 + 1..<length ?a - 1]"
    using t by (intro upt_split_at) (auto simp add: Suc_le_eq)
  have n1: "\<forall>idx\<in>set [1..<length M]. ?a ! idx \<noteq> 0"
    using nth_pos_nonzero[OF M(2)] by (auto simp add: nth_append)
  have p1: "?a ! length M = 0" by simp
  have n2: "\<forall>idx\<in>set [length M + 1..<?p2]. ?a ! idx \<noteq> 0"
  proof
    fix idx assume "idx \<in> set [length M + 1..<?p2]"
    then obtain j where j: "idx = length M + Suc j" "j < length f"
      by (auto simp add: le_iff_add)
    have "?a ! idx = f ! j" unfolding j(1) nth_append_length_plus using j(2) by (simp add: nth_append)
    moreover have "0 < f ! j" using f j(2) by (simp add: list_all_length)
    ultimately show "?a ! idx \<noteq> 0" by simp
  qed
  have p2: "?a ! ?p2 = 0" by (simp add: nth_append)
  have dr: "drop (?p2 + 1) ?a = t" by simp
  have "length (filter (\<lambda>idx. ?a ! idx = 0) [?p2 + 1..<length ?a - 1])
      \<le> length (filter (\<lambda>v. v = 0) (drop (?p2 + 1) ?a))"
    by (rule zeros_in_range_le) simp
  then have b2: "2 + 1 + length (filter (\<lambda>idx. ?a ! idx = 0) [?p2 + 1..<length ?a - 1])
      \<le> length (z[1 := Some (length M - 1)])"
    using z unfolding dr by simp
  from find_zeros_first[OF n2 p2 b2] obtain c' z' where
    r: "find_zeros ?a ([length M + 1..<?p2] @ ?p2 # [?p2 + 1..<length ?a - 1])
          (2, z[1 := Some (length M - 1)]) = Inr (c', z')"
      "length z' = length z" "z' ! 2 = Some (?p2 - 1)"
      "\<forall>i<2. z' ! i = z[1 := Some (length M - 1)] ! i"
    by auto
  have z1: "1 < length z" using z by simp
  have s1: "find_zeros ?a [1..<length M] (1, z) = Inr (1, z)"
    by (rule find_zeros_none[OF n1])
  have s2: "find_zeros ?a (length M # ys) (1, z) = find_zeros ?a ys (2, z[1 := Some (length M - 1)])"
    for ys using p1 z1 by (simp add: numeral_2_eq_2)
  have "find_zeros ?a [1..<length ?a - 1] (1, z)
      = find_zeros ?a ([1..<length M] @ length M # [length M + 1..<length ?a - 1]) (1, z)"
    by (simp only: sp1[symmetric])
  also have "\<dots> = find_zeros ?a (length M # [length M + 1..<length ?a - 1]) (1, z)"
    unfolding find_zeros_append s1 bind_err_def by simp
  also have "\<dots> = find_zeros ?a [length M + 1..<length ?a - 1] (2, z[1 := Some (length M - 1)])"
    by (rule s2)
  also have "\<dots> = Inr (c', z')" unfolding sp2 by (rule r(1))
  finally have "find_zeros ?a [1..<length ?a - 1] (1, z) = Inr (c', z')" .
  moreover have "z' ! 1 = Some (length M - 1)" "z' ! 0 = z ! 0" using r(4) z1 by simp_all
  ultimately show ?thesis using r(2,3) by auto
qed

declare merge_loop.simps [simp del]

lemma zero_indices_two:
  assumes k: "3 \<le> k" "length z = k + 1"
    and M: "1 \<le> length M" "list_all (\<lambda>v. 0 < v) (tl M)"
    and f: "list_all (\<lambda>v. 0 < v) f" and t: "t \<noteq> []"
    and zs: "length (filter (\<lambda>v. v = 0) t) + 2 \<le> k"
  shows "\<exists>z'. zero_indices k (M @ 0 # f @ 0 # t) z = Inr z' \<and> length z' = k + 1
           \<and> read_slot z' 1 = Inr (length M - 1)
           \<and> read_slot z' 2 = Inr (length M + length f)"
proof -
  let ?a = "M @ 0 # f @ 0 # t"
  have b: "length (filter (\<lambda>v. v = 0) t) + 3 \<le> length (z[0 := Some 0])" using k zs by simp
  from scan_two[OF M f t b] obtain c' z' where
    r: "find_zeros ?a [1..<length ?a - 1] (1, z[0 := Some 0]) = Inr (c', z')"
      "length z' = length (z[0 := Some 0])" "z' ! 1 = Some (length M - 1)"
      "z' ! 2 = Some (length M + length f)"
    by blast
  let ?z = "z'[k := Some (length ?a - 1)]"
  have g: "\<not> (length z \<le> k \<or> length ?a = 0)" using k by simp
  have run: "zero_indices k ?a z = Inr ?z"
    unfolding zero_indices_def using g r(1) by (simp add: bind_err_def)
  have l: "length ?z = k + 1" using r(2) k by simp
  have r1: "read_slot ?z 1 = Inr (length M - 1)"
    using r(2,3) k by (simp add: read_slot_def)
  have r2: "read_slot ?z 2 = Inr (length M + length f)"
    using r(2,4) k by (simp add: read_slot_def)
  from run l r1 r2 show ?thesis by blast
qed

lemma zero_indices_one:
  assumes k: "2 \<le> k" "length z = k + 1"
    and M: "1 \<le> length M" "list_all (\<lambda>v. 0 < v) (tl M)"
    and t: "list_all (\<lambda>v. 0 < v) t" "t \<noteq> []"
  shows "\<exists>z'. zero_indices k (M @ 0 # t) z = Inr z' \<and> read_slot z' 1 = Inr (length M - 1)"
proof -
  let ?a = "M @ 0 # t"
  have b: "2 \<le> length (z[0 := Some 0])" using k by simp
  from scan_one[OF M t b] obtain c' z' where
    r: "find_zeros ?a [1..<length ?a - 1] (1, z[0 := Some 0]) = Inr (c', z')"
      "length z' = length (z[0 := Some 0])" "z' ! 1 = Some (length M - 1)"
    by blast
  let ?z = "z'[k := Some (length ?a - 1)]"
  have g: "\<not> (length z \<le> k \<or> length ?a = 0)" using k by simp
  have run: "zero_indices k ?a z = Inr ?z"
    unfolding zero_indices_def using g r(1) by (simp add: bind_err_def)
  have r1: "read_slot ?z 1 = Inr (length M - 1)"
    using r(2,3) k by (simp add: read_slot_def)
  from run r1 show ?thesis by blast
qed

lemma bump_fragment:
  assumes "M \<noteq> []"
  shows "bump (length M) (length M + length f) (M @ 0 # f @ post)
       = Inr (M @ map (\<lambda>v. last M + v) f @ last (0 # f) # post)"
proof -
  from assms obtain pre p where M: "M = pre @ [p]" by (metis append_butlast_last_id)
  have e: "fold (\<lambda>idx a. a[idx := a ! (idx - 1) + (a ! (idx + 1) - a ! idx)])
        [length pre + 1..<length pre + 1 + length f] (pre @ p # 0 # f @ post)
      = pre @ p # map (\<lambda>v. p + (v - 0)) f @ last (0 # f) # post"
    by (rule bump_region)
  have g: "\<not> (length M < length M + length f
      \<and> (length M = 0 \<or> length (M @ 0 # f @ post) \<le> length M + length f))"
    using assms by simp
  have l: "length M = length pre + 1" "M @ 0 # f @ post = pre @ p # 0 # f @ post"
    "length M + length f = length pre + 1 + length f"
    by (simp_all add: M)
  show ?thesis
    unfolding bump_def if_not_P[OF g] unfolding l e by (simp add: M)
qed

lemma shift_at:
  "shift (length pre) (pre @ x # post) = pre @ post @ [last (x # post)]"
  unfolding shift_def using shift_region[of pre post x] by simp

lemma last_pos_tail:
  assumes "list_all fragment rest" "list_all (\<lambda>v. 0 < v) stale" "f \<noteq> []" "list_all (\<lambda>v. 0 < v) f"
  shows "0 < last (f @ concat rest @ stale)"
proof (cases "stale = []")
  case False
  then show ?thesis using assms(2) by (simp add: pos_last)
next
  case True
  show ?thesis
  proof (cases "rest = []")
    case True
    then show ?thesis using \<open>stale = []\<close> assms(3,4) by (simp add: pos_last)
  next
    case False
    have "concat rest \<noteq> []" using False assms(1) by (cases rest) (auto simp add: fragment_def)
    then show ?thesis using \<open>stale = []\<close> concat_fragments_last[OF assms(1) False] by simp
  qed
qed

lemma merge_loop_step:
  assumes "iter + 1 < k" "zero_indices k a z = Inr z'" "read_slot z' 1 = Inr z1"
    and "read_slot z' 2 = Inr z2" "bump (z1 + 1) z2 a = Inr a1"
  shows "merge_loop k iter a z = merge_loop k (iter + 1) (shift z2 a1) z'"
  using assms by (subst merge_loop.simps) (simp add: bind_err_def)

lemma merge_loop_fragments:
  assumes "list_all fragment rest" "rest \<noteq> []" "2 \<le> length M" "list_all (\<lambda>v. 0 < v) (tl M)"
    and "list_all (\<lambda>v. 0 < v) stale" "length z = k + 1" "iter + length rest = k" "1 \<le> iter"
  shows "\<exists>stale' z'. merge_loop k iter (M @ concat rest @ stale) z
            = Inr (M @ shifted_tails (last M) (butlast rest) @ last rest @ stale', z')
          \<and> list_all (\<lambda>v. 0 < v) stale' \<and> length stale' + 1 = length stale + length rest
          \<and> length z' = k + 1"
  using assms
proof (induction rest arbitrary: M stale z iter)
  case Nil
  then show ?case by simp
next
  case (Cons F rest)
  show ?case
  proof (cases rest)
    case Nil
    have "\<not> iter + 1 < k" using Cons.prems(7) Nil by simp
    then have "merge_loop k iter (M @ concat (F # rest) @ stale) z
        = Inr (M @ concat (F # rest) @ stale, z)"
      by (subst merge_loop.simps) simp
    then show ?thesis using Nil Cons.prems(5,6) by simp
  next
    case (Cons F' rest')
    note rest = Cons
    have fr: "fragment F" "fragment F'" "list_all fragment rest'"
      using Cons.prems(1) rest by simp_all
    from fr(1) obtain f where F: "F = 0 # f" "f \<noteq> []" "list_all (\<lambda>v. 0 < v) f"
      by (rule fragment_cases)
    from fr(2) obtain f' where F': "F' = 0 # f'" "f' \<noteq> []" "list_all (\<lambda>v. 0 < v) f'"
      by (rule fragment_cases)
    define t where "t = f' @ concat rest' @ stale"
    have a: "M @ concat (F # rest) @ stale = M @ 0 # f @ 0 # t"
      by (simp add: rest F F' t_def)
    have k3: "3 \<le> k" "iter + 1 < k" using Cons.prems(7,8) rest by simp_all
    have tne: "t \<noteq> []" using F'(2) by (simp add: t_def)
    have zt: "length (filter (\<lambda>v. v = 0) t) = length rest'"
      using zeros_pos[OF F'(3)] zeros_pos[OF Cons.prems(5)] zeros_fragments[OF fr(3)]
      by (simp add: t_def)
    have zs: "length (filter (\<lambda>v. v = 0) t) + 2 \<le> k"
      using zt Cons.prems(7) rest by simp
    have M1: "1 \<le> length M" "M \<noteq> []" using Cons.prems(3) by auto
    from zero_indices_two[OF k3(1) Cons.prems(6) M1(1) Cons.prems(4) F(3) tne zs]
    obtain z' where z': "zero_indices k (M @ 0 # f @ 0 # t) z = Inr z'" "length z' = k + 1"
      "read_slot z' 1 = Inr (length M - 1)" "read_slot z' 2 = Inr (length M + length f)"
      by blast
    let ?M1 = "M @ map (\<lambda>v. last M + v) f"
    have bm: "bump (length M - 1 + 1) (length M + length f) (M @ 0 # f @ 0 # t)
        = Inr (?M1 @ last (0 # f) # 0 # t)"
    proof -
      have lm: "length M - 1 + 1 = length M" using M1(1) by simp
      show ?thesis unfolding lm append_assoc by (rule bump_fragment[OF M1(2)])
    qed
    have sh: "shift (length M + length f) (?M1 @ last (0 # f) # 0 # t)
        = ?M1 @ (0 # t) @ [last t]"
      using shift_at[of ?M1 "last (0 # f)" "0 # t"] tne by simp
    have step: "merge_loop k iter (M @ concat (F # rest) @ stale) z
        = merge_loop k (iter + 1) (?M1 @ concat rest @ (stale @ [last t])) z'"
    proof -
      have e: "?M1 @ (0 # t) @ [last t] = ?M1 @ concat rest @ (stale @ [last t])"
        by (simp add: rest F' t_def)
      show ?thesis
        unfolding a merge_loop_step[OF k3(2) z'(1) z'(3) z'(4) bm] sh e ..
    qed
    have lM: "0 < last M"
    proof -
      have "tl M \<noteq> []" using Cons.prems(3) by (cases M) auto
      then have "0 < last (tl M)" using Cons.prems(4) by (simp add: pos_last)
      then show ?thesis using \<open>tl M \<noteq> []\<close> by (cases M) (auto simp add: last_tl)
    qed
    have lt: "0 < last t" unfolding t_def
      by (rule last_pos_tail[OF fr(3) Cons.prems(5) F'(2,3)])
    have p1: "list_all fragment rest" "rest \<noteq> []" using fr rest by simp_all
    have p3: "2 \<le> length ?M1" using Cons.prems(3) by simp
    have p4: "list_all (\<lambda>v. 0 < v) (tl ?M1)"
    proof -
      have "list_all (\<lambda>v. 0 < v) (map (\<lambda>v. last M + v) f)"
        using F(3) lM by (auto simp add: list_all_iff)
      moreover have "tl ?M1 = tl M @ map (\<lambda>v. last M + v) f" using M1(2) by simp
      ultimately show ?thesis using Cons.prems(4) by simp
    qed
    have p5: "list_all (\<lambda>v. 0 < v) (stale @ [last t])" using Cons.prems(5) lt by simp
    have p7: "iter + 1 + length rest = k" using Cons.prems(7) by simp
    from Cons.IH[OF p1 p3 p4 p5 z'(2) p7] obtain stale' z'' where
      ih: "merge_loop k (iter + 1) (?M1 @ concat rest @ stale @ [last t]) z'
          = Inr (?M1 @ shifted_tails (last ?M1) (butlast rest) @ last rest @ stale', z'')"
        "list_all (\<lambda>v. 0 < v) stale'" "length stale' + 1 = length (stale @ [last t]) + length rest"
        "length z'' = k + 1"
      by auto
    have l1: "last ?M1 = last M + last F" using F(2) by (simp add: F last_map)
    have bl: "butlast (F # rest) = F # butlast rest" "last (F # rest) = last rest"
      using p1(2) by simp_all
    have st: "shifted_tails (last M) (F # butlast rest)
        = map (\<lambda>v. last M + v) f @ shifted_tails (last ?M1) (butlast rest)"
      unfolding l1 by (simp add: F)
    have e: "?M1 @ shifted_tails (last ?M1) (butlast rest) @ last rest @ stale'
        = M @ shifted_tails (last M) (butlast (F # rest)) @ last (F # rest) @ stale'"
      by (simp only: bl st append_assoc)
    have res: "merge_loop k iter (M @ concat (F # rest) @ stale) z
        = Inr (M @ shifted_tails (last M) (butlast (F # rest)) @ last (F # rest) @ stale', z'')"
      by (simp only: step ih(1) e)
    have len: "length stale' + 1 = length stale + length (F # rest)" using ih(3) by simp
    from res ih(2) len ih(4) show ?thesis by blast
  qed
qed

lemma shifted_tails_snoc:
  "shifted_tails off (xs @ [y])
     = shifted_tails off xs @ map (\<lambda>v. (off + sum_list (map last xs)) + v) (tl y)"
  by (induction xs arbitrary: off) (simp_all add: add.assoc)

lemma shifted_tails_last:
  "list_all fragment fs \<Longrightarrow> M \<noteq> [] \<Longrightarrow>
   last (M @ shifted_tails (last M) fs) = last M + sum_list (map last fs)"
proof (induction fs arbitrary: M)
  case Nil
  then show ?case by simp
next
  case (Cons F fs)
  then have "fragment F" by simp
  then obtain f where F: "F = 0 # f" "f \<noteq> []" by (rule fragment_cases)
  let ?M1 = "M @ map (\<lambda>v. last M + v) f"
  have l1: "last ?M1 = last M + last F" using F(2) by (simp add: F last_map)
  have "last (?M1 @ shifted_tails (last ?M1) fs) = last ?M1 + sum_list (map last fs)"
    using Cons.prems by (intro Cons.IH) simp_all
  then show ?case unfolding l1 by (simp add: F)
qed

lemma shifted_tails_pos:
  "list_all fragment fs \<Longrightarrow> 0 \<le> off \<Longrightarrow> list_all (\<lambda>v. 0 < v) (shifted_tails off fs)"
proof (induction fs arbitrary: off)
  case Nil
  then show ?case by simp
next
  case (Cons F fs)
  then have "fragment F" by simp
  then obtain f where F: "F = 0 # f" "f \<noteq> []" "list_all (\<lambda>v. 0 < v) f" by (rule fragment_cases)
  have "0 < last F" using F by (simp add: pos_last)
  then have "list_all (\<lambda>v. 0 < v) (shifted_tails (off + last F) fs)"
    using Cons.prems by (intro Cons.IH) simp_all
  moreover have "list_all (\<lambda>v. 0 < v) (map (\<lambda>v. off + v) f)"
    using F(3) Cons.prems(2) by (auto simp add: list_all_iff)
  ultimately show ?case by (simp add: F)
qed

lemma sorted_le_last: "sorted xs \<Longrightarrow> x \<in> set xs \<Longrightarrow> x \<le> (last xs :: int)"
  by (induction xs) auto

lemma shifted_tails_sorted:
  "list_all fragment fs \<Longrightarrow> M \<noteq> [] \<Longrightarrow> sorted M \<Longrightarrow>
   sorted (M @ shifted_tails (last M) fs)"
proof (induction fs arbitrary: M)
  case Nil
  then show ?case by simp
next
  case (Cons F fs)
  then have "fragment F" by simp
  then obtain f where F: "F = 0 # f" "f \<noteq> []" "list_all (\<lambda>v. 0 < v) f" "sorted (0 # f)"
    by (rule fragment_cases)
  let ?M1 = "M @ map (\<lambda>v. last M + v) f"
  have l1: "last ?M1 = last M + last F" using F(2) by (simp add: F last_map)
  have le: "\<forall>x\<in>set M. x \<le> last M"
    using Cons.prems(3) by (simp add: sorted_le_last)
  have sm: "sorted (map (\<lambda>v. last M + v) f)"
    using F(4) by (simp add: sorted_iff_nth_mono)
  have "\<forall>x\<in>set M. \<forall>y\<in>set (map (\<lambda>v. last M + v) f). x \<le> y"
  proof (intro ballI)
    fix x y assume x: "x \<in> set M" and "y \<in> set (map (\<lambda>v. last M + v) f)"
    then obtain v where "y = last M + v" "v \<in> set f" by auto
    moreover have "0 < v" using \<open>v \<in> set f\<close> F(3) by (simp add: list_all_iff)
    ultimately show "x \<le> y" using le x by fastforce
  qed
  then have "sorted ?M1"
    unfolding sorted_append using Cons.prems(3) sm by blast
  then have "sorted (?M1 @ shifted_tails (last ?M1) fs)"
    using Cons.prems by (intro Cons.IH) simp_all
  then show ?case unfolding l1 by (simp add: F)
qed

lemma last_pass:
  assumes k: "2 \<le> k" "length z = k + 1"
    and M: "2 \<le> length M" "list_all (\<lambda>v. 0 < v) (tl M)"
    and F: "fragment F" and st: "list_all (\<lambda>v. 0 < v) stale" "length stale + 2 = k"
    and loop: "merge_loop k 1 a0 z0 = Inr (M @ F @ stale, z)"
  shows "\<exists>a. bind_err (merge_loop k 1 a0 z0) (\<lambda>(a1, z).
         bind_err (zero_indices k a1 z) (\<lambda>z'.
         bind_err (read_slot z' 1) (\<lambda>z1.
         bind_err (bump (z1 + 1) (length a1 - 1) a1) (\<lambda>a2.
         if k = 0 \<or> length a2 < k then Inl OutOfBounds
         else Inr (a2, a2 ! (length a2 - k))))))
       = Inr (a, last M + last F)
     \<and> row_pointers k a = M @ map (\<lambda>v. last M + v) (tl F)
     \<and> length a = length (M @ F @ stale)"
proof -
  from F obtain f where f: "F = 0 # f" "f \<noteq> []" "list_all (\<lambda>v. 0 < v) f"
    by (rule fragment_cases)
  define t where "t = f @ stale"
  have a1: "M @ F @ stale = M @ 0 # t" by (simp add: f t_def)
  have t: "list_all (\<lambda>v. 0 < v) t" "t \<noteq> []" using f st by (simp_all add: t_def)
  have M1: "1 \<le> length M" "M \<noteq> []" using M(1) by auto
  from zero_indices_one[OF k M1(1) M(2) t] obtain z' where
    z': "zero_indices k (M @ 0 # t) z = Inr z'" "read_slot z' 1 = Inr (length M - 1)"
    by blast
  let ?a2 = "M @ map (\<lambda>v. last M + v) t @ [last (0 # t)]"
  have lo: "length M - 1 + 1 = length M" using M1(1) by simp
  have hi: "length (M @ 0 # t) - 1 = length M + length t" by simp
  have bm: "bump (length M - 1 + 1) (length (M @ 0 # t) - 1) (M @ 0 # t) = Inr ?a2"
    unfolding lo hi using bump_fragment[OF M1(2), of t "[]"] by simp
  have len: "length ?a2 = length M + length f + k - 1" using st(2) by (simp add: t_def)
  have g: "\<not> (k = 0 \<or> length ?a2 < k)" using k len M(1) by simp
  have idx: "length ?a2 - k = length M + (length f - 1)" using len k f(2) M(1)
    by (cases f) simp_all
  have nnz: "?a2 ! (length ?a2 - k) = last M + last F"
  proof -
    have "?a2 ! (length M + (length f - 1)) = (map (\<lambda>v. last M + v) t @ [last (0 # t)]) ! (length f - 1)"
      by (rule nth_append_length_plus)
    also have "\<dots> = last M + f ! (length f - 1)"
      using f(2) by (simp add: nth_append t_def)
    also have "f ! (length f - 1) = last F" using f(2) by (simp add: f last_conv_nth)
    finally show ?thesis unfolding idx .
  qed
  have run: "bind_err (merge_loop k 1 a0 z0) (\<lambda>(a1, z).
         bind_err (zero_indices k a1 z) (\<lambda>z'.
         bind_err (read_slot z' 1) (\<lambda>z1.
         bind_err (bump (z1 + 1) (length a1 - 1) a1) (\<lambda>a2.
         if k = 0 \<or> length a2 < k then Inl OutOfBounds
         else Inr (a2, a2 ! (length a2 - k))))))
       = Inr (?a2, last M + last F)"
    unfolding loop a1 using z' bm g nnz by (simp add: bind_err_def)
  have tk: "length ?a2 + 1 - k = length (M @ map (\<lambda>v. last M + v) f)"
    using len k by simp
  have rp: "row_pointers k ?a2 = M @ map (\<lambda>v. last M + v) (tl F)"
  proof -
    have "?a2 = (M @ map (\<lambda>v. last M + v) f) @ (map (\<lambda>v. last M + v) stale @ [last (0 # t)])"
      by (simp add: t_def)
    then have "take (length (M @ map (\<lambda>v. last M + v) f)) ?a2 = M @ map (\<lambda>v. last M + v) f"
      by (simp only: append_eq_conv_conj[symmetric] take_all_iff append_take_drop_id take_append) simp
    then show ?thesis unfolding row_pointers_def tk by (simp add: f)
  qed
  have ln: "length ?a2 = length (M @ F @ stale)" by (simp add: f t_def)
  from run rp ln show ?thesis by blast
qed

lemma merge_single:
  assumes "fragment F"
  shows "merge_all_I 1 F = Inr (F, last F) \<and> row_pointers 1 F = F"
proof -
  from assms obtain f where f: "F = 0 # f" "f \<noteq> []" "list_all (\<lambda>v. 0 < v) f"
    by (rule fragment_cases)
  let ?z = "replicate (1 + 1) (None :: nat option)"
  have lp: "merge_loop 1 1 F ?z = Inr (F, ?z)"
    by (subst merge_loop.simps) simp
  have nz: "\<forall>idx\<in>set [1..<length F - 1]. F ! idx \<noteq> 0"
    using nth_pos_nonzero[of F] f by auto
  have fz: "find_zeros F [1..<length F - 1] (1, ?z[0 := Some 0]) = Inr (1, ?z[0 := Some 0])"
    by (rule find_zeros_none[OF nz])
  let ?z' = "(?z[0 := Some 0])[1 := Some (length F - 1)]"
  have zi: "zero_indices 1 F ?z = Inr ?z'"
    unfolding zero_indices_def fz using f by (simp add: bind_err_def)
  have rs: "read_slot ?z' 1 = Inr (length F - 1)" by (simp add: read_slot_def)
  have bm: "bump (length F - 1 + 1) (length F - 1) F = Inr F" by (simp add: bump_def)
  have nn: "F ! (length F - 1) = last F" using f by (simp add: last_conv_nth)
  have g: "\<not> ((1::nat) = 0 \<or> length F < 1)" using f by simp
  have "merge_all_I 1 F = Inr (F, last F)"
    unfolding merge_all_I_def Let_def lp using zi rs bm nn g by (simp add: bind_err_def)
  moreover have "row_pointers 1 F = F" by (simp add: row_pointers_def)
  ultimately show ?thesis by simp
qed

lemma length_shifted_tails:
  "list_all fragment fs \<Longrightarrow> length (shifted_tails off fs) + length fs = length (concat fs)"
proof (induction fs arbitrary: off)
  case Nil
  then show ?case by simp
next
  case (Cons F fs)
  then have "fragment F" by simp
  then obtain f where F: "F = 0 # f" by (rule fragment_cases)
  have "length (shifted_tails (off + last F) fs) + length fs = length (concat fs)"
    using Cons.prems by (intro Cons.IH) simp
  then show ?case by (simp add: F)
qed

text \<open>
  C1, amended. For every \<open>k \<ge> 1\<close> monotone non-decreasing sequences that start at 0, have
  at least two entries and no zero after the first, the merge of their concatenation
  returns normally; the first \<open>sum(len_i) - (k - 1)\<close> entries of the merged array are the
  merged row pointers of the specification, they are monotone non-decreasing, and their
  final value, which is also \<^verbatim>\<open>local_nnz\<close>, is the sum of the final values of the inputs.
\<close>

theorem merge_row_pointers:
  assumes "frags \<noteq> []" "list_all fragment frags"
  shows "\<exists>a local_nnz. merge_all_I (length frags) (concat frags) = Inr (a, local_nnz)
     \<and> row_pointers (length frags) a = merged_row_pointers frags
     \<and> sorted (row_pointers (length frags) a)
     \<and> length (row_pointers (length frags) a) + (length frags - 1) = sum_list (map length frags)
     \<and> last (row_pointers (length frags) a) = sum_list (map last frags)
     \<and> local_nnz = sum_list (map last frags)"
proof -
  from assms obtain F1 rest where frags: "frags = F1 # rest" by (cases frags) auto
  have F1: "fragment F1" and rest: "list_all fragment rest" using assms(2) frags by simp_all
  from F1 obtain f1 where f1: "F1 = 0 # f1" "f1 \<noteq> []" "list_all (\<lambda>v. 0 < v) f1" "sorted (0 # f1)"
    by (rule fragment_cases)
  have "map ((+) (0::int)) f1 = f1" by (induction f1) simp_all
  then have mg: "merged_row_pointers frags = F1 @ shifted_tails (last F1) rest"
    by (simp add: merged_row_pointers_def frags f1)
  have srt: "sorted (merged_row_pointers frags)"
    unfolding mg using rest F1 by (intro shifted_tails_sorted) (auto simp add: fragment_def)
  have lst: "last (merged_row_pointers frags) = sum_list (map last frags)"
    unfolding mg using shifted_tails_last[OF rest, of F1] f1 by (simp add: frags)
  have "\<exists>a local_nnz. merge_all_I (length frags) (concat frags) = Inr (a, local_nnz)
     \<and> row_pointers (length frags) a = merged_row_pointers frags
     \<and> length a = length (concat frags)
     \<and> local_nnz = sum_list (map last frags)"
  proof (cases "rest = []")
    case True
    then show ?thesis using merge_single[OF F1] mg by (simp add: frags)
  next
    case False
    let ?k = "length frags"
    let ?z0 = "replicate (?k + 1) (None :: nat option)"
    have k: "2 \<le> ?k" "1 + length rest = ?k" using False by (cases rest) (simp_all add: frags)
    have l2: "2 \<le> length F1" using F1 by (simp add: fragment_def)
    have ps: "list_all (\<lambda>v. 0 < v) (tl F1)" using f1 by simp
    have p5: "list_all (\<lambda>v. 0 < v) ([]::int list)" by simp
    have p6: "length ?z0 = ?k + 1" by simp
    have p8: "(1::nat) \<le> 1" by simp
    note merge_loop_fragments[OF rest False l2 ps p5 p6 k(2) p8]
    then obtain stale z where
      lp: "merge_loop ?k 1 (concat frags) ?z0
            = Inr (F1 @ shifted_tails (last F1) (butlast rest) @ last rest @ stale, z)"
      and st: "list_all (\<lambda>v. 0 < v) stale" "length stale + 1 = length rest"
      and z: "length z = ?k + 1"
      by (auto simp add: frags)
    let ?M = "F1 @ shifted_tails (last F1) (butlast rest)"
    have rb: "list_all fragment (butlast rest)" "fragment (last rest)"
      using rest False by (auto simp add: list_all_iff dest: in_set_butlastD)
    have M2: "2 \<le> length ?M" using l2 by simp
    have l0: "0 \<le> last F1" using fragment_last[OF F1] by simp
    have Mp: "list_all (\<lambda>v. 0 < v) (tl ?M)"
      using ps shifted_tails_pos[OF rb(1) l0] f1 by simp
    have s2: "length stale + 2 = ?k" using st(2) k(2) by simp
    have lp': "merge_loop ?k 1 (concat frags) ?z0 = Inr (?M @ last rest @ stale, z)"
      using lp by simp
    from last_pass[OF k(1) z M2 Mp rb(2) st(1) s2 lp'] obtain a where
      a: "merge_all_I ?k (concat frags) = Inr (a, last ?M + last (last rest))"
        "row_pointers ?k a = ?M @ map (\<lambda>v. last ?M + v) (tl (last rest))"
        "length a = length (?M @ last rest @ stale)"
      unfolding merge_all_I_def Let_def by blast
    have lM: "last ?M = last F1 + sum_list (map last (butlast rest))"
      using shifted_tails_last[OF rb(1), of F1] f1 by simp
    have sn: "shifted_tails (last F1) rest
        = shifted_tails (last F1) (butlast rest) @ map (\<lambda>v. last ?M + v) (tl (last rest))"
      using shifted_tails_snoc[of "last F1" "butlast rest" "last rest"] False
      unfolding lM by simp
    have r1: "row_pointers ?k a = merged_row_pointers frags"
      unfolding a(2) mg sn by simp
    have sm: "sum_list (map last frags) = last ?M + last (last rest)"
    proof -
      have "map last rest = map last (butlast rest) @ [last (last rest)]"
        using False by (metis append_butlast_last_id list.map(1,2) map_append)
      then show ?thesis unfolding lM by (simp add: frags)
    qed
    have la: "length a = length (concat frags)"
    proof -
      have c: "concat rest = concat (butlast rest) @ last rest"
        using False by (metis append_butlast_last_id concat.simps concat_append append_Nil2)
      have "length (shifted_tails (last F1) (butlast rest)) + length (butlast rest)
          = length (concat (butlast rest))"
        by (rule length_shifted_tails[OF rb(1)])
      then show ?thesis unfolding a(3) using st(2) c by (simp add: frags)
    qed
    from a(1) r1 la sm show ?thesis by simp
  qed
  then obtain a local_nnz where
    r: "merge_all_I (length frags) (concat frags) = Inr (a, local_nnz)"
      "row_pointers (length frags) a = merged_row_pointers frags"
      "length a = length (concat frags)"
      "local_nnz = sum_list (map last frags)"
    by blast
  have k1: "1 \<le> length frags" using assms(1) by (cases frags) simp_all
  have kn: "length frags \<le> length (concat frags)"
    using assms(2) by (induction frags) (auto simp add: fragment_def)
  have ln: "length (row_pointers (length frags) a) + (length frags - 1) = sum_list (map length frags)"
    unfolding row_pointers_def using r(3) k1 kn by (simp add: length_concat)
  from r(1,2,4) srt lst ln show ?thesis by simp
qed

text \<open>
  C1, as stated, fails. The fragments \<open>[0, 0, 3]\<close> and \<open>[0, 2]\<close> are monotone and start at
  0, but the scan takes the zero inside the first fragment for a seam: the merged row
  pointers are \<open>[0, 3, 0, 2]\<close>, not monotone, with final value 2 instead of 5. For the
  fragments \<open>[0, 2]\<close> and \<open>[0]\<close> (the last rank owns no row) no seam is found and the last
  pass reads a slot of \<^verbatim>\<open>z_ind\<close> that was never written.
\<close>

theorem merge_row_pointers_counterexample:
  "merge_all_I 2 (concat [[0, 0, 3], [0, 2]]) = Inr ([0, 3, 0, 2, 2], 2)
   \<and> \<not> sorted (row_pointers 2 [0, 3, 0, 2, 2])
   \<and> last (row_pointers 2 [0, 3, 0, 2, 2]) \<noteq> sum_list (map last [[0, 0, 3], [0, 2]])
   \<and> merge_all_I 2 (concat [[0, 2], [0]]) = Inl Uninitialized"
  by code_simp

text \<open>
  The fragments \<open>[0, 2, 5]\<close>, \<open>[0, 3]\<close>, \<open>[0, 1, 4]\<close> merge to \<open>[0, 2, 5, 8, 9, 12]\<close>.
\<close>

theorem merge_row_pointers_witness:
  "[[0, 2, 5], [0, 3], [0, 1, 4]] \<noteq> [] \<and> list_all fragment [[0, 2, 5], [0, 3], [0, 1, 4]]
   \<and> merge_all_I 3 [0, 2, 5, 0, 3, 0, 1, 4] = Inr ([0, 2, 5, 8, 9, 12, 12, 4], 12)
   \<and> row_pointers 3 [0, 2, 5, 8, 9, 12, 12, 4] = [0, 2, 5, 8, 9, 12]
   \<and> merged_row_pointers [[0, 2, 5], [0, 3], [0, 1, 4]] = [0, 2, 5, 8, 9, 12]"
proof -
  have h: "[[0, 2, 5], [0, 3], [0, 1, 4::int]] \<noteq> []" "list_all fragment [[0, 2, 5], [0, 3], [0, 1, 4]]"
    by (simp_all add: fragment_def)
  have m: "merged_row_pointers [[0, 2, 5], [0, 3], [0, 1, 4]] = [0, 2, 5, 8, 9, 12]"
    by (simp add: merged_row_pointers_def)
  have k: "length [[0, 2, 5], [0, 3], [0, 1, 4::int]] = 3"
    and c: "concat [[0, 2, 5], [0, 3], [0, 1, 4::int]] = [0, 2, 5, 0, 3, 0, 1, 4]"
    by simp_all
  from merge_row_pointers[OF h, unfolded k c] obtain a local_nnz where
    r: "merge_all_I 3 [0, 2, 5, 0, 3, 0, 1, 4] = Inr (a, local_nnz)"
      "row_pointers 3 a = merged_row_pointers [[0, 2, 5], [0, 3], [0, 1, 4]]"
    by blast
  have e: "merge_all_I 3 [0, 2, 5, 0, 3, 0, 1, 4] = Inr ([0, 2, 5, 8, 9, 12, 12, 4], 12)"
    by code_simp
  from r e have "row_pointers 3 [0, 2, 5, 8, 9, 12, 12, 4] = merged_row_pointers [[0, 2, 5], [0, 3], [0, 1, 4]]"
    by simp
  with h m e show ?thesis by simp
qed

text \<open>
  C8. Whenever the leader's merge block of \<^verbatim>\<open>setA\<close> returns, the gathered column array
  \<open>all_J\<close> and value array \<open>all_A\<close> are what they were after the gathers: only \<open>all_I\<close> is
  written.
\<close>

theorem setA_merge_frame:
  assumes "setA_merge devWorldSize g = Inr (g', local_nnz)"
  shows "all_J g' = all_J g \<and> all_A g' = all_A g"
  using assms
  by (auto simp add: setA_merge_def bind_err_def split: sum.splits prod.splits)

theorem setA_merge_frame_witness:
  "setA_merge 3 example_gathered
     = Inr (example_gathered\<lparr>all_I := [0, 2, 5, 8, 9, 12, 12, 4]\<rparr>, 12)
   \<and> all_J (example_gathered\<lparr>all_I := [0, 2, 5, 8, 9, 12, 12, 4]\<rparr>) = all_J example_gathered
   \<and> all_A (example_gathered\<lparr>all_I := [0, 2, 5, 8, 9, 12, 12, 4]\<rparr>) = all_A example_gathered"
proof -
  have m: "merge_all_I 3 [0, 2, 5, 0, 3, 0, 1, 4] = Inr ([0, 2, 5, 8, 9, 12, 12, 4], 12)"
    by code_simp
  have r: "setA_merge 3 example_gathered
     = Inr (example_gathered\<lparr>all_I := [0, 2, 5, 8, 9, 12, 12, 4]\<rparr>, 12)"
    by (simp add: setA_merge_def example_gathered_def m bind_err_def)
  from setA_merge_frame[OF r] r show ?thesis by simp
qed

subsection \<open>\<^verbatim>\<open>GetLocalA\<close>\<close>

lemma write_at_Cons:
  "k < length buf \<Longrightarrow> write_at (Suc k) xs (buf[k := x]) = write_at k (x # xs) buf"
  by (simp add: write_at_def take_Suc_conv_app_nth)

lemma write_at_Nil: "k \<le> length buf \<Longrightarrow> write_at k [] buf = buf"
  by (simp add: write_at_def)

lemma write_at_write_at:
  "k + length xs \<le> length buf \<Longrightarrow>
   write_at (k + length xs) ys (write_at k xs buf) = write_at k (xs @ ys) buf"
  by (simp add: write_at_def add.assoc add.commute add.left_commute)

lemma length_write_at:
  "k + length xs \<le> length buf \<Longrightarrow> length (write_at k xs buf) = length buf"
  by (simp add: write_at_def)

lemma take_drop_Suc:
  "p < length xs \<Longrightarrow> take (Suc n) (drop p xs) = xs ! p # take n (drop (Suc p) xs)"
  by (simp add: Cons_nth_drop_Suc[symmetric])

lemma global_col_ok:
  assumes "p < length (OffJ m)" "list_all (\<lambda>c. 0 \<le> c \<and> c < int (length (cmap m))) (OffJ m)"
  shows "global_col m p = Inr (cmap m ! nat (OffJ m ! p))"
  using assms by (auto simp add: global_col_def list_all_length)

lemma offd_rest_spec:
  assumes "OffJ_ptr s + n \<le> length (OffJ m)" "length (OffA m) = length (OffJ m)"
    and "list_all (\<lambda>c. 0 \<le> c \<and> c < int (length (cmap m))) (OffJ m)"
    and "fill_k s + n \<le> length (fill_J s)" "length (fill_Data s) = length (fill_J s)"
  shows "offd_rest m n s =
     Inr (s\<lparr>OffJ_ptr := OffJ_ptr s + n,
            fill_J := write_at (fill_k s)
                        (map (\<lambda>c. cmap m ! nat c) (take n (drop (OffJ_ptr s) (OffJ m)))) (fill_J s),
            fill_Data := write_at (fill_k s) (take n (drop (OffJ_ptr s) (OffA m))) (fill_Data s),
            fill_k := fill_k s + n\<rparr>)"
  using assms
proof (induction n arbitrary: s)
  case 0
  then show ?case by (simp add: write_at_Nil)
next
  case (Suc n)
  let ?p = "OffJ_ptr s"
  let ?k = "fill_k s"
  have p: "?p < length (OffJ m)" "?p < length (OffA m)" using Suc.prems by simp_all
  have k: "?k < length (fill_J s)" "?k < length (fill_Data s)" using Suc.prems by simp_all
  let ?s1 = "s\<lparr>OffJ_ptr := ?p + 1,
      fill_J := (fill_J s)[?k := cmap m ! nat (OffJ m ! ?p)],
      fill_Data := (fill_Data s)[?k := OffA m ! ?p],
      fill_k := ?k + 1\<rparr>"
  have st: "store (cmap m ! nat (OffJ m ! ?p)) (OffA m ! ?p) (s\<lparr>OffJ_ptr := ?p + 1\<rparr>) = Inr ?s1"
    using k by (simp add: store_def)
  have ih: "offd_rest m n ?s1 =
     Inr (?s1\<lparr>OffJ_ptr := OffJ_ptr ?s1 + n,
            fill_J := write_at (fill_k ?s1)
                        (map (\<lambda>c. cmap m ! nat c) (take n (drop (OffJ_ptr ?s1) (OffJ m)))) (fill_J ?s1),
            fill_Data := write_at (fill_k ?s1) (take n (drop (OffJ_ptr ?s1) (OffA m))) (fill_Data ?s1),
            fill_k := fill_k ?s1 + n\<rparr>)"
    using Suc.prems by (intro Suc.IH) simp_all
  have "offd_rest m (Suc n) s = offd_rest m n ?s1"
    using p st global_col_ok[OF p(1) Suc.prems(3)] by (simp add: bind_err_def)
  then show ?case
    unfolding ih using p k
    by (simp add: take_drop_Suc write_at_Cons)
qed

lemma diag_all_spec:
  assumes "DiagJ_ptr s + n \<le> length (DiagJ m)" "length (DiagA m) = length (DiagJ m)"
    and "fill_k s + n \<le> length (fill_J s)" "length (fill_Data s) = length (fill_J s)"
  shows "diag_all m cstart n s =
     Inr (s\<lparr>DiagJ_ptr := DiagJ_ptr s + n,
            fill_J := write_at (fill_k s)
                        (map (\<lambda>c. cstart + c) (take n (drop (DiagJ_ptr s) (DiagJ m)))) (fill_J s),
            fill_Data := write_at (fill_k s) (take n (drop (DiagJ_ptr s) (DiagA m))) (fill_Data s),
            fill_k := fill_k s + n\<rparr>)"
  using assms
proof (induction n arbitrary: s)
  case 0
  then show ?case by (simp add: write_at_Nil)
next
  case (Suc n)
  let ?p = "DiagJ_ptr s"
  let ?k = "fill_k s"
  have p: "?p < length (DiagJ m)" "?p < length (DiagA m)" using Suc.prems by simp_all
  have k: "?k < length (fill_J s)" "?k < length (fill_Data s)" using Suc.prems by simp_all
  let ?s1 = "s\<lparr>DiagJ_ptr := ?p + 1,
      fill_J := (fill_J s)[?k := cstart + DiagJ m ! ?p],
      fill_Data := (fill_Data s)[?k := DiagA m ! ?p],
      fill_k := ?k + 1\<rparr>"
  have st: "store (cstart + DiagJ m ! ?p) (DiagA m ! ?p) (s\<lparr>DiagJ_ptr := ?p + 1\<rparr>) = Inr ?s1"
    using k by (simp add: store_def)
  have ih: "diag_all m cstart n ?s1 =
     Inr (?s1\<lparr>DiagJ_ptr := DiagJ_ptr ?s1 + n,
            fill_J := write_at (fill_k ?s1)
                        (map (\<lambda>c. cstart + c) (take n (drop (DiagJ_ptr ?s1) (DiagJ m)))) (fill_J ?s1),
            fill_Data := write_at (fill_k ?s1) (take n (drop (DiagJ_ptr ?s1) (DiagA m))) (fill_Data ?s1),
            fill_k := fill_k ?s1 + n\<rparr>)"
    using Suc.prems by (intro Suc.IH) simp_all
  have "diag_all m cstart (Suc n) s = diag_all m cstart n ?s1"
    using p st by (simp add: bind_err_def)
  then show ?case
    unfolding ih using p k
    by (simp add: take_drop_Suc write_at_Cons)
qed

lemma offd_first_spec:
  assumes "OffJ_ptr s + n \<le> length (OffJ m)" "length (OffA m) = length (OffJ m)"
    and "list_all (\<lambda>c. 0 \<le> c \<and> c < int (length (cmap m))) (OffJ m)"
    and "fill_k s + n \<le> length (fill_J s)" "length (fill_Data s) = length (fill_J s)"
    and "cols = map (\<lambda>c. cmap m ! nat c) (take n (drop (OffJ_ptr s) (OffJ m)))"
    and "c = length (takeWhile (\<lambda>x. x < cstart) cols)"
  shows "offd_first m cstart n jo s =
     Inr (jo + c,
          s\<lparr>OffJ_ptr := OffJ_ptr s + c,
            fill_J := write_at (fill_k s) (take c cols) (fill_J s),
            fill_Data := write_at (fill_k s) (take c (drop (OffJ_ptr s) (OffA m))) (fill_Data s),
            fill_k := fill_k s + c\<rparr>)"
  using assms
proof (induction n arbitrary: s jo cols c)
  case 0
  then show ?case by (simp add: write_at_Nil)
next
  case (Suc n)
  let ?p = "OffJ_ptr s"
  let ?k = "fill_k s"
  let ?x = "cmap m ! nat (OffJ m ! ?p)"
  have p: "?p < length (OffJ m)" "?p < length (OffA m)" using Suc.prems by simp_all
  have k: "?k < length (fill_J s)" "?k < length (fill_Data s)" "?k \<le> length (fill_J s)"
    "?k \<le> length (fill_Data s)" using Suc.prems by simp_all
  define cols' where "cols' = map (\<lambda>c. cmap m ! nat c) (take n (drop (Suc ?p) (OffJ m)))"
  have cols: "cols = ?x # cols'" using Suc.prems(6) p by (simp add: take_drop_Suc cols'_def)
  have gc: "global_col m ?p = Inr ?x" by (rule global_col_ok[OF p(1) Suc.prems(3)])
  show ?case
  proof (cases "?x < cstart")
    case False
    then have c0: "c = 0" using Suc.prems(7) cols by simp
    have "offd_first m cstart (Suc n) jo s = Inr (jo, s)" using gc False by (simp add: bind_err_def)
    then show ?thesis using c0 k by (simp add: write_at_Nil)
  next
    case True
    define c' where "c' = length (takeWhile (\<lambda>x. x < cstart) cols')"
    have c: "c = Suc c'" using Suc.prems(7) cols True by (simp add: c'_def)
    let ?s1 = "s\<lparr>OffJ_ptr := ?p + 1,
        fill_J := (fill_J s)[?k := ?x],
        fill_Data := (fill_Data s)[?k := OffA m ! ?p],
        fill_k := ?k + 1\<rparr>"
    have st: "store ?x (OffA m ! ?p) (s\<lparr>OffJ_ptr := ?p + 1\<rparr>) = Inr ?s1"
      using k by (simp add: store_def)
    have ih: "offd_first m cstart n (jo + 1) ?s1 =
       Inr (jo + 1 + c',
          ?s1\<lparr>OffJ_ptr := OffJ_ptr ?s1 + c',
            fill_J := write_at (fill_k ?s1) (take c' cols') (fill_J ?s1),
            fill_Data := write_at (fill_k ?s1) (take c' (drop (OffJ_ptr ?s1) (OffA m))) (fill_Data ?s1),
            fill_k := fill_k ?s1 + c'\<rparr>)"
      using Suc.prems(1-5) by (intro Suc.IH) (simp_all add: cols'_def c'_def)
    have "offd_first m cstart (Suc n) jo s = offd_first m cstart n (jo + 1) ?s1"
      using gc True p st by (simp add: bind_err_def)
    then show ?thesis
      unfolding ih using p k
      by (simp add: c cols take_drop_Suc write_at_Cons)
  qed
qed

lemma fill_row_spec:
  assumes I: "i + 1 < length (OffI m)" "i + 1 < length (DiagI m)"
    and no: "no = nat (OffI m ! (i + 1) - OffI m ! i)"
    and nd: "nd = nat (DiagI m ! (i + 1) - DiagI m ! i)"
    and o: "OffJ_ptr s + no \<le> length (OffJ m)" "length (OffA m) = length (OffJ m)"
      "list_all (\<lambda>c. 0 \<le> c \<and> c < int (length (cmap m))) (OffJ m)"
    and d: "DiagJ_ptr s + nd \<le> length (DiagJ m)" "length (DiagA m) = length (DiagJ m)"
    and k: "fill_k s + (no + nd) \<le> length (fill_J s)" "length (fill_Data s) = length (fill_J s)"
    and cols: "cols = map (\<lambda>c. cmap m ! nat c) (take no (drop (OffJ_ptr s) (OffJ m)))"
    and ovals: "ovals = take no (drop (OffJ_ptr s) (OffA m))"
    and c: "c = length (takeWhile (\<lambda>x. x < cstart) cols)"
  shows "fill_row m cstart i s =
     Inr (s\<lparr>OffJ_ptr := OffJ_ptr s + no, DiagJ_ptr := DiagJ_ptr s + nd,
            fill_J := write_at (fill_k s)
               (take c cols @ map (\<lambda>c. cstart + c) (take nd (drop (DiagJ_ptr s) (DiagJ m)))
                  @ drop c cols) (fill_J s),
            fill_Data := write_at (fill_k s)
               (take c ovals @ take nd (drop (DiagJ_ptr s) (DiagA m)) @ drop c ovals) (fill_Data s),
            fill_k := fill_k s + (no + nd)\<rparr>)"
proof -
  let ?p = "OffJ_ptr s" and ?q = "DiagJ_ptr s" and ?k = "fill_k s"
  let ?front = "take c cols" and ?fvals = "take c ovals"
  let ?diag = "map (\<lambda>c. cstart + c) (take nd (drop ?q (DiagJ m)))"
  let ?dvals = "take nd (drop ?q (DiagA m))"
  have lc: "length cols = no" using o(1) by (simp add: cols)
  have lo: "length ovals = no" using o(1,2) by (simp add: ovals)
  have cn: "c \<le> no" using length_takeWhile_le[of "\<lambda>x. x < cstart" cols] lc c by simp
  have lf: "length ?front = c" "length ?fvals = c" using cn lc lo by simp_all
  have ld: "length ?diag = nd" "length ?dvals = nd" using d by simp_all
  let ?s1 = "s\<lparr>OffJ_ptr := ?p + c,
            fill_J := write_at ?k ?front (fill_J s),
            fill_Data := write_at ?k (take c (drop ?p (OffA m))) (fill_Data s),
            fill_k := ?k + c\<rparr>"
  have k1: "?k + no \<le> length (fill_J s)" using k(1) by simp
  have f1: "offd_first m cstart no 0 s = Inr (0 + c, ?s1)"
    by (rule offd_first_spec[OF o k1 k(2) cols c])
  have fv: "take c (drop ?p (OffA m)) = ?fvals" using cn by (simp add: ovals min_def)
  have l1: "length (fill_J ?s1) = length (fill_J s)" "length (fill_Data ?s1) = length (fill_Data s)"
    using k cn lf by (simp_all add: length_write_at fv)
  let ?s2 = "?s1\<lparr>DiagJ_ptr := DiagJ_ptr ?s1 + nd,
            fill_J := write_at (fill_k ?s1)
                        (map (\<lambda>c. cstart + c) (take nd (drop (DiagJ_ptr ?s1) (DiagJ m)))) (fill_J ?s1),
            fill_Data := write_at (fill_k ?s1) (take nd (drop (DiagJ_ptr ?s1) (DiagA m))) (fill_Data ?s1),
            fill_k := fill_k ?s1 + nd\<rparr>"
  have f2: "diag_all m cstart nd ?s1 = Inr ?s2"
    using d k cn l1 by (intro diag_all_spec) simp_all
  have l2: "length (fill_J ?s2) = length (fill_J s)" "length (fill_Data ?s2) = length (fill_Data s)"
    using k cn lf ld l1 by (simp_all add: length_write_at fv)
  let ?s3 = "?s2\<lparr>OffJ_ptr := OffJ_ptr ?s2 + (no - c),
            fill_J := write_at (fill_k ?s2)
                        (map (\<lambda>c. cmap m ! nat c) (take (no - c) (drop (OffJ_ptr ?s2) (OffJ m)))) (fill_J ?s2),
            fill_Data := write_at (fill_k ?s2) (take (no - c) (drop (OffJ_ptr ?s2) (OffA m))) (fill_Data ?s2),
            fill_k := fill_k ?s2 + (no - c)\<rparr>"
  have f3: "offd_rest m (no - c) ?s2 = Inr ?s3"
    using o k cn l2 by (intro offd_rest_spec) simp_all
  have run: "fill_row m cstart i s = Inr ?s3"
    unfolding fill_row_def Let_def no[symmetric] nd[symmetric]
    using I f1 f2 f3 by (simp add: bind_err_def)
  have b1: "map (\<lambda>c. cmap m ! nat c) (take (no - c) (drop (?p + c) (OffJ m))) = drop c cols"
    by (simp add: cols drop_map drop_take add.commute)
  have b2: "take (no - c) (drop (?p + c) (OffA m)) = drop c ovals"
    by (simp add: ovals drop_take add.commute)
  have wJ: "write_at (?k + c + nd) (drop c cols) (write_at (?k + c) ?diag (write_at ?k ?front (fill_J s)))
      = write_at ?k (?front @ ?diag @ drop c cols) (fill_J s)"
  proof -
    have "write_at (?k + c) ?diag (write_at ?k ?front (fill_J s)) = write_at ?k (?front @ ?diag) (fill_J s)"
      using write_at_write_at[of ?k ?front "fill_J s" ?diag] lf k cn by simp
    moreover have "write_at (?k + c + nd) (drop c cols) (write_at ?k (?front @ ?diag) (fill_J s))
        = write_at ?k ((?front @ ?diag) @ drop c cols) (fill_J s)"
      using write_at_write_at[of ?k "?front @ ?diag" "fill_J s" "drop c cols"] lf ld k cn
      by (simp add: add.assoc)
    ultimately show ?thesis by simp
  qed
  have wD: "write_at (?k + c + nd) (drop c ovals) (write_at (?k + c) ?dvals (write_at ?k ?fvals (fill_Data s)))
      = write_at ?k (?fvals @ ?dvals @ drop c ovals) (fill_Data s)"
  proof -
    have "write_at (?k + c) ?dvals (write_at ?k ?fvals (fill_Data s)) = write_at ?k (?fvals @ ?dvals) (fill_Data s)"
      using write_at_write_at[of ?k ?fvals "fill_Data s" ?dvals] lf k cn by simp
    moreover have "write_at (?k + c + nd) (drop c ovals) (write_at ?k (?fvals @ ?dvals) (fill_Data s))
        = write_at ?k ((?fvals @ ?dvals) @ drop c ovals) (fill_Data s)"
      using write_at_write_at[of ?k "?fvals @ ?dvals" "fill_Data s" "drop c ovals"] lf ld k cn
      by (simp add: add.assoc)
    ultimately show ?thesis by simp
  qed
  show ?thesis
    unfolding run using cn wJ wD by (simp add: b1 b2 fv)
qed

lemma fill_rows_append:
  "fill_rows m cstart (xs @ ys) s = bind_err (fill_rows m cstart xs s) (fill_rows m cstart ys)"
  by (induction xs arbitrary: s) (auto simp add: bind_err_def split: sum.splits)

lemma csr_bounds:
  assumes "csr rows I J A" "i \<le> j" "j \<le> rows"
  shows "0 \<le> I ! i" "I ! i \<le> I ! j" "I ! j \<le> int (length J)" "length A = length J"
proof -
  have l: "length I = rows + 1" "I ! 0 = 0" "sorted I" "int (length J) = I ! rows"
    "length A = length J"
    using assms(1) by (simp_all add: csr_def)
  show "I ! i \<le> I ! j" using l(1,3) assms(2,3) by (simp add: sorted_iff_nth_mono)
  have "I ! 0 \<le> I ! i" using l(1,3) assms(2,3) by (simp add: sorted_iff_nth_mono)
  then show "0 \<le> I ! i" using l(2) by simp
  have "I ! j \<le> I ! rows" using l(1,3) assms(3) by (simp add: sorted_iff_nth_mono)
  then show "I ! j \<le> int (length J)" using l(4) by simp
  show "length A = length J" by (rule l(5))
qed

lemma row_slice_length:
  assumes "csr rows I J A" "i < rows"
  shows "length (row_slice I J i) = nat (I ! (i + 1) - I ! i)"
    and "length (row_slice I A i) = nat (I ! (i + 1) - I ! i)"
proof -
  have b: "0 \<le> I ! i" "I ! i \<le> I ! (i + 1)" "I ! (i + 1) \<le> int (length J)" "length A = length J"
    using csr_bounds[OF assms(1), of i "i + 1"] assms(2) by simp_all
  show "length (row_slice I J i) = nat (I ! (i + 1) - I ! i)"
    using b by (simp add: row_slice_def)
  show "length (row_slice I A i) = nat (I ! (i + 1) - I ! i)"
    using b by (simp add: row_slice_def)
qed

lemma row_cols_length:
  assumes "csr rows (DiagI m) (DiagJ m) (DiagA m)" "csr rows (OffI m) (OffJ m) (OffA m)" "i < rows"
  shows "length (row_cols m i)
       = nat (OffI m ! (i + 1) - OffI m ! i) + nat (DiagI m ! (i + 1) - DiagI m ! i)"
    and "length (row_vals m i)
       = nat (OffI m ! (i + 1) - OffI m ! i) + nat (DiagI m ! (i + 1) - DiagI m ! i)"
proof -
  let ?cols = "map (\<lambda>c. cmap m ! nat c) (row_slice (OffI m) (OffJ m) i)"
  let ?c = "length (takeWhile (\<lambda>x. x < fst (ColPart m)) ?cols)"
  have c: "?c \<le> length ?cols" by (rule length_takeWhile_le)
  have lo: "length ?cols = nat (OffI m ! (i + 1) - OffI m ! i)"
    "length (row_slice (OffI m) (OffA m) i) = nat (OffI m ! (i + 1) - OffI m ! i)"
    using row_slice_length[OF assms(2,3)] by simp_all
  have ld: "length (row_slice (DiagI m) (DiagJ m) i) = nat (DiagI m ! (i + 1) - DiagI m ! i)"
    "length (row_slice (DiagI m) (DiagA m) i) = nat (DiagI m ! (i + 1) - DiagI m ! i)"
    using row_slice_length[OF assms(1,3)] by simp_all
  show "length (row_cols m i)
       = nat (OffI m ! (i + 1) - OffI m ! i) + nat (DiagI m ! (i + 1) - DiagI m ! i)"
    unfolding row_cols_def Let_def using c lo ld by simp
  show "length (row_vals m i)
       = nat (OffI m ! (i + 1) - OffI m ! i) + nat (DiagI m ! (i + 1) - DiagI m ! i)"
    unfolding row_vals_def Let_def using c lo ld by simp
qed

lemma fill_rows_spec:
  assumes D: "csr rows (DiagI m) (DiagJ m) (DiagA m)" and O: "csr rows (OffI m) (OffJ m) (OffA m)"
    and v: "list_all (\<lambda>c. 0 \<le> c \<and> c < int (length (cmap m))) (OffJ m)"
    and s0: "fill_k s0 = 0" "OffJ_ptr s0 = 0" "DiagJ_ptr s0 = 0"
      "length (fill_J s0) = nat (DiagI m ! rows + OffI m ! rows)"
      "length (fill_Data s0) = length (fill_J s0)"
    and cs: "cstart = fst (ColPart m)"
  shows "j \<le> rows \<Longrightarrow>
     fill_rows m cstart [0..<j] s0 =
       Inr (s0\<lparr>OffJ_ptr := nat (OffI m ! j), DiagJ_ptr := nat (DiagI m ! j),
              fill_J := write_at 0 (concat (map (row_cols m) [0..<j])) (fill_J s0),
              fill_Data := write_at 0 (concat (map (row_vals m) [0..<j])) (fill_Data s0),
              fill_k := nat (DiagI m ! j + OffI m ! j)\<rparr>)
     \<and> length (concat (map (row_cols m) [0..<j])) = nat (DiagI m ! j + OffI m ! j)
     \<and> length (concat (map (row_vals m) [0..<j])) = nat (DiagI m ! j + OffI m ! j)"
proof (induction j)
  case 0
  have z: "DiagI m ! 0 = 0" "OffI m ! 0 = 0" using D O by (simp_all add: csr_def)
  show ?case using s0 z by (simp add: write_at_Nil)
next
  case (Suc j)
  then have j: "j < rows" "j \<le> rows" by simp_all
  let ?sj = "s0\<lparr>OffJ_ptr := nat (OffI m ! j), DiagJ_ptr := nat (DiagI m ! j),
              fill_J := write_at 0 (concat (map (row_cols m) [0..<j])) (fill_J s0),
              fill_Data := write_at 0 (concat (map (row_vals m) [0..<j])) (fill_Data s0),
              fill_k := nat (DiagI m ! j + OffI m ! j)\<rparr>"
  from Suc.IH[OF j(2)] have
    ih: "fill_rows m cstart [0..<j] s0 = Inr ?sj"
    and lj: "length (concat (map (row_cols m) [0..<j])) = nat (DiagI m ! j + OffI m ! j)"
      "length (concat (map (row_vals m) [0..<j])) = nat (DiagI m ! j + OffI m ! j)"
    by simp_all
  define no where "no = nat (OffI m ! (j + 1) - OffI m ! j)"
  define nd where "nd = nat (DiagI m ! (j + 1) - DiagI m ! j)"
  have bo: "0 \<le> OffI m ! j" "OffI m ! j \<le> OffI m ! (j + 1)"
    "OffI m ! (j + 1) \<le> int (length (OffJ m))" "length (OffA m) = length (OffJ m)"
    using csr_bounds[OF O, of j "j + 1"] j by simp_all
  have bd: "0 \<le> DiagI m ! j" "DiagI m ! j \<le> DiagI m ! (j + 1)"
    "DiagI m ! (j + 1) \<le> int (length (DiagJ m))" "length (DiagA m) = length (DiagJ m)"
    using csr_bounds[OF D, of j "j + 1"] j by simp_all
  have tot: "DiagI m ! (j + 1) \<le> DiagI m ! rows" "OffI m ! (j + 1) \<le> OffI m ! rows"
    using csr_bounds(2)[OF D, of "j + 1" rows] csr_bounds(2)[OF O, of "j + 1" rows] j by simp_all
  have li: "j + 1 < length (OffI m)" "j + 1 < length (DiagI m)"
    using D O j by (simp_all add: csr_def)
  have lJ: "length (fill_J ?sj) = length (fill_J s0)" "length (fill_Data ?sj) = length (fill_J s0)"
    using lj s0 bd bo tot by (simp_all add: length_write_at)
  have a1: "OffJ_ptr ?sj + no \<le> length (OffJ m)" using bo by (simp add: no_def)
  have a2: "DiagJ_ptr ?sj + nd \<le> length (DiagJ m)" using bd by (simp add: nd_def)
  have a3: "fill_k ?sj + (no + nd) \<le> length (fill_J ?sj)"
    unfolding lJ using s0(4) bd bo tot by (simp add: no_def nd_def)
  have a4: "length (fill_Data ?sj) = length (fill_J ?sj)" using lJ by simp
  define cols where "cols = map (\<lambda>c. cmap m ! nat c) (take no (drop (OffJ_ptr ?sj) (OffJ m)))"
  define ovals where "ovals = take no (drop (OffJ_ptr ?sj) (OffA m))"
  define c where "c = length (takeWhile (\<lambda>x. x < cstart) cols)"
  note row = fill_row_spec[OF li no_def nd_def a1 bo(4) v a2 bd(4) a3 a4 cols_def ovals_def c_def]
  have rc: "take c cols @ map (\<lambda>c. cstart + c) (take nd (drop (DiagJ_ptr ?sj) (DiagJ m))) @ drop c cols
      = row_cols m j"
    by (simp add: row_cols_def row_slice_def Let_def cols_def c_def no_def nd_def cs)
  have rv: "take c ovals @ take nd (drop (DiagJ_ptr ?sj) (DiagA m)) @ drop c ovals = row_vals m j"
    by (simp add: row_vals_def row_slice_def Let_def cols_def ovals_def c_def no_def nd_def cs)
  have kj: "fill_k ?sj = 0 + length (concat (map (row_cols m) [0..<j]))"
    "fill_k ?sj = 0 + length (concat (map (row_vals m) [0..<j]))"
    using lj by simp_all
  have wJ: "write_at (fill_k ?sj) (row_cols m j) (fill_J ?sj)
      = write_at 0 (concat (map (row_cols m) [0..<Suc j])) (fill_J s0)"
  proof -
    have "0 + length (concat (map (row_cols m) [0..<j])) \<le> length (fill_J s0)"
      using lj s0(4) bd bo tot by simp
    from write_at_write_at[OF this, of "row_cols m j"] show ?thesis
      unfolding kj(1) by simp
  qed
  have wD: "write_at (fill_k ?sj) (row_vals m j) (fill_Data ?sj)
      = write_at 0 (concat (map (row_vals m) [0..<Suc j])) (fill_Data s0)"
  proof -
    have "0 + length (concat (map (row_vals m) [0..<j])) \<le> length (fill_Data s0)"
      using lj s0(4,5) bd bo tot by simp
    from write_at_write_at[OF this, of "row_vals m j"] show ?thesis
      unfolding kj(2) by simp
  qed
  have pn: "OffJ_ptr ?sj + no = nat (OffI m ! Suc j)" "DiagJ_ptr ?sj + nd = nat (DiagI m ! Suc j)"
    "fill_k ?sj + (no + nd) = nat (DiagI m ! Suc j + OffI m ! Suc j)"
    using bo bd by (simp_all add: no_def nd_def)
  have run: "fill_rows m cstart [0..<Suc j] s0 = fill_row m cstart j ?sj"
    by (simp add: fill_rows_append ih bind_err_def split: sum.splits)
  have len: "length (row_cols m j) = no + nd" "length (row_vals m j) = no + nd"
    using row_cols_length[OF D O j(1)] by (simp_all add: no_def nd_def)
  have l1: "length (concat (map (row_cols m) [0..<Suc j])) = nat (DiagI m ! Suc j + OffI m ! Suc j)"
    using lj(1) len(1) pn(3) by simp
  have l2: "length (concat (map (row_vals m) [0..<Suc j])) = nat (DiagI m ! Suc j + OffI m ! Suc j)"
    using lj(2) len(2) pn(3) by simp
  have "fill_rows m cstart [0..<Suc j] s0 =
       Inr (s0\<lparr>OffJ_ptr := nat (OffI m ! Suc j), DiagJ_ptr := nat (DiagI m ! Suc j),
              fill_J := write_at 0 (concat (map (row_cols m) [0..<Suc j])) (fill_J s0),
              fill_Data := write_at 0 (concat (map (row_vals m) [0..<Suc j])) (fill_Data s0),
              fill_k := nat (DiagI m ! Suc j + OffI m ! Suc j)\<rparr>)"
    unfolding run row rc rv wJ wD pn by simp
  then show ?case using l1 l2 by blast
qed

lemma compute_I_fold:
  assumes "n \<le> rows"
  shows "length (fold (\<lambda>i I. I[i + 1 := I ! i + (DI ! (i + 1) - DI ! i) + (OI ! (i + 1) - OI ! i)])
                   [0..<n] (replicate (rows + 1) (0::int))) = rows + 1
       \<and> (\<forall>j\<le>n. fold (\<lambda>i I. I[i + 1 := I ! i + (DI ! (i + 1) - DI ! i) + (OI ! (i + 1) - OI ! i)])
                   [0..<n] (replicate (rows + 1) 0) ! j
               = (DI ! j - DI ! 0) + (OI ! j - OI ! 0))"
  using assms
proof (induction n)
  case 0
  then show ?case by simp
next
  case (Suc n)
  let ?f = "\<lambda>i I. I[i + 1 := I ! i + (DI ! (i + 1) - DI ! i) + (OI ! (i + 1) - OI ! i)]"
  let ?In = "fold ?f [0..<n] (replicate (rows + 1) (0::int))"
  from Suc have ih: "length ?In = rows + 1"
    "\<And>j. j \<le> n \<Longrightarrow> ?In ! j = (DI ! j - DI ! 0) + (OI ! j - OI ! 0)"
    by simp_all
  have st: "fold ?f [0..<Suc n] (replicate (rows + 1) 0) = ?In[n + 1 := ?In ! n + (DI ! (n + 1) - DI ! n) + (OI ! (n + 1) - OI ! n)]"
    by simp
  show ?case
    unfolding st
  proof (intro conjI allI impI)
    show "length (?In[n + 1 := ?In ! n + (DI ! (n + 1) - DI ! n) + (OI ! (n + 1) - OI ! n)]) = rows + 1"
      using ih(1) by simp
    fix j assume j: "j \<le> Suc n"
    show "?In[n + 1 := ?In ! n + (DI ! (n + 1) - DI ! n) + (OI ! (n + 1) - OI ! n)] ! j
        = (DI ! j - DI ! 0) + (OI ! j - OI ! 0)"
    proof (cases "j = n + 1")
      case True
      then show ?thesis using ih(1) ih(2)[of n] Suc.prems by simp
    next
      case False
      then show ?thesis using ih(2)[of j] j by simp
    qed
  qed
qed

lemma compute_I_spec:
  assumes D: "csr rows (DiagI m) (DiagJ m) (DiagA m)" and O: "csr rows (OffI m) (OffJ m) (OffA m)"
  shows "\<exists>I. compute_I m rows = Inr I \<and> length I = rows + 1
           \<and> (\<forall>j\<le>rows. I ! j = DiagI m ! j + OffI m ! j)"
proof -
  have l: "length (DiagI m) = rows + 1" "length (OffI m) = rows + 1" "DiagI m ! 0 = 0" "OffI m ! 0 = 0"
    using D O by (simp_all add: csr_def)
  have g: "\<not> (0 < rows \<and> (length (DiagI m) \<le> rows \<or> length (OffI m) \<le> rows))"
    using l by simp
  show ?thesis
    unfolding compute_I_def if_not_P[OF g]
    using compute_I_fold[of rows rows "DiagI m" "OffI m"] l(3,4) by simp
qed

lemma write_at_all: "length xs = length buf \<Longrightarrow> write_at 0 xs buf = xs"
  by (simp add: write_at_def)

lemma concat_slice:
  assumes "i < n"
  shows "take (length (f i)) (drop (length (concat (map f [0..<i]))) (concat (map f [0..<n]))) = f i"
proof -
  have "[0..<n] = [0..<i] @ i # [Suc i..<n]"
    using assms by (metis le_add1 less_imp_add_positive less_or_eq_imp_le plus_nat.add_0 upt_add_eq_append upt_conv_Cons)
  then have "concat (map f [0..<n]) = concat (map f [0..<i]) @ f i @ concat (map f [Suc i..<n])"
    by simp
  then show ?thesis by simp
qed

lemma GetLocalA_rows:
  assumes D: "csr rows (DiagI m) (DiagJ m) (DiagA m)" and O: "csr rows (OffI m) (OffJ m) (OffA m)"
    and v: "list_all (\<lambda>c. 0 \<le> c \<and> c < int (length (cmap m))) (OffJ m)"
    and rows: "rows = nat \<bar>snd (RowPart m) - fst (RowPart m)\<bar>"
  shows "\<exists>I J Data. GetLocalA fresh m = Inr (I, J, Data)
     \<and> length I = rows + 1 \<and> (\<forall>j\<le>rows. I ! j = DiagI m ! j + OffI m ! j)
     \<and> (\<forall>i<rows. row_slice I J i = row_cols m i \<and> row_slice I Data i = row_vals m i)"
proof -
  from compute_I_spec[OF D O] obtain I where
    I: "compute_I m rows = Inr I" "length I = rows + 1" "\<And>j. j \<le> rows \<Longrightarrow> I ! j = DiagI m ! j + OffI m ! j"
    by blast
  have nn: "0 \<le> DiagI m ! rows" "0 \<le> OffI m ! rows"
    using csr_bounds(1)[OF D, of rows rows] csr_bounds(1)[OF O, of rows rows] by simp_all
  let ?nnz = "nat (I ! rows)"
  let ?s0 = "\<lparr>fill_k = 0, OffJ_ptr = 0, DiagJ_ptr = 0,
              fill_J = replicate ?nnz 0, fill_Data = replicate ?nnz fresh\<rparr>"
  have s0: "fill_k ?s0 = 0" "OffJ_ptr ?s0 = 0" "DiagJ_ptr ?s0 = 0"
    "length (fill_J ?s0) = nat (DiagI m ! rows + OffI m ! rows)"
    "length (fill_Data ?s0) = length (fill_J ?s0)"
    using I(3)[of rows] by simp_all
  note fr = fill_rows_spec[OF D O v s0 refl, of rows]
  let ?J = "concat (map (row_cols m) [0..<rows])"
  let ?A = "concat (map (row_vals m) [0..<rows])"
  have lJ: "length ?J = ?nnz" "length ?A = ?nnz" using fr I(3)[of rows] by simp_all
  have run: "GetLocalA fresh m = Inr (I, ?J, ?A)"
    unfolding GetLocalA_def Let_def rows[symmetric] I(1)
    using fr nn I(3)[of rows] lJ by (simp add: bind_err_def write_at_all)
  have sl: "\<forall>i<rows. row_slice I ?J i = row_cols m i \<and> row_slice I ?A i = row_vals m i"
  proof (intro allI impI)
    fix i assume i: "i < rows"
    have li: "length ?J \<ge> 0" by simp
    from fill_rows_spec[OF D O v s0 refl, of i] i have
      p: "length (concat (map (row_cols m) [0..<i])) = nat (I ! i)"
         "length (concat (map (row_vals m) [0..<i])) = nat (I ! i)"
      using I(3)[of i] by simp_all
    have bo: "0 \<le> OffI m ! i" "OffI m ! i \<le> OffI m ! (i + 1)"
      using csr_bounds[OF O, of i "i + 1"] i by simp_all
    have bd: "0 \<le> DiagI m ! i" "DiagI m ! i \<le> DiagI m ! (i + 1)"
      using csr_bounds[OF D, of i "i + 1"] i by simp_all
    have d: "nat (I ! (i + 1) - I ! i) = length (row_cols m i)"
      "nat (I ! (i + 1) - I ! i) = length (row_vals m i)"
      using row_cols_length[OF D O i] I(3)[of i] I(3)[of "i + 1"] i bo bd by simp_all
    have "row_slice I ?J i = row_cols m i"
      unfolding row_slice_def d(1) p(1)[symmetric] by (rule concat_slice[OF i])
    moreover have "row_slice I ?A i = row_vals m i"
      unfolding row_slice_def d(2) p(2)[symmetric] by (rule concat_slice[OF i])
    ultimately show "row_slice I ?J i = row_cols m i \<and> row_slice I ?A i = row_vals m i" ..
  qed
  from run I(2,3) sl show ?thesis by blast
qed

lemma sorted_filter_takeWhile:
  "sorted (map fst es) \<Longrightarrow> filter (\<lambda>e. fst e < (b::int)) es = takeWhile (\<lambda>e. fst e < b) es"
proof (induction es)
  case Nil
  then show ?case by simp
next
  case (Cons e es)
  show ?case
  proof (cases "fst e < b")
    case True
    then show ?thesis using Cons by simp
  next
    case False
    then have "\<forall>x\<in>set es. \<not> fst x < b" using Cons.prems by fastforce
    then have "filter (\<lambda>e. fst e < b) es = []" by (simp add: filter_empty_conv)
    then show ?thesis using False by simp
  qed
qed

lemma sorted_filter_dropWhile:
  "sorted (map fst es) \<Longrightarrow> filter (\<lambda>e. \<not> fst e < (b::int)) es = dropWhile (\<lambda>e. fst e < b) es"
proof (induction es)
  case Nil
  then show ?case by simp
next
  case (Cons e es)
  show ?case
  proof (cases "fst e < b")
    case True
    then show ?thesis using Cons by simp
  next
    case False
    then have "\<forall>x\<in>set es. \<not> fst x < b" using Cons.prems by fastforce
    then have "filter (\<lambda>e. \<not> fst e < b) es = es" by (simp add: filter_id_conv)
    then show ?thesis using False by simp
  qed
qed

lemma sorted_map_cmap:
  assumes "sorted xs" "sorted cm" "\<forall>x\<in>set xs. 0 \<le> x \<and> x < int (length cm)"
  shows "sorted (map (\<lambda>c. cm ! nat c) xs)"
  unfolding sorted_iff_nth_mono
proof (intro allI impI)
  fix i j assume ij: "i \<le> j" "j < length (map (\<lambda>c. cm ! nat c) xs)"
  then have "xs ! i \<le> xs ! j" using assms(1) by (simp add: sorted_iff_nth_mono)
  moreover have "0 \<le> xs ! i" "xs ! j < int (length cm)" using assms(3) ij by simp_all
  ultimately have "cm ! nat (xs ! i) \<le> cm ! nat (xs ! j)"
    using assms(2) by (simp add: sorted_iff_nth_mono)
  then show "map (\<lambda>c. cm ! nat c) xs ! i \<le> map (\<lambda>c. cm ! nat c) xs ! j" using ij by simp
qed

lemma expected_row_code:
  assumes D: "csr rows (DiagI m) (DiagJ m) (DiagA m)" and O: "csr rows (OffI m) (OffJ m) (OffA m)"
    and i: "i < rows"
    and srt: "sorted (map (\<lambda>c. cmap m ! nat c) (row_slice (OffI m) (OffJ m) i))"
  shows "map fst (expected_row m i) = row_cols m i" "map snd (expected_row m i) = row_vals m i"
proof -
  let ?b = "fst (ColPart m)"
  let ?cols = "map (\<lambda>c. cmap m ! nat c) (row_slice (OffI m) (OffJ m) i)"
  let ?ovals = "row_slice (OffI m) (OffA m) i"
  let ?es = "zip ?cols ?ovals"
  let ?c = "length (takeWhile (\<lambda>x. x < ?b) ?cols)"
  have lo: "length ?cols = length ?ovals" using row_slice_length[OF O i] by simp
  have ld: "length (map (\<lambda>c. ?b + c) (row_slice (DiagI m) (DiagJ m) i))
      = length (row_slice (DiagI m) (DiagA m) i)"
    using row_slice_length[OF D i] by simp
  have mf: "map fst ?es = ?cols" "map snd ?es = ?ovals" using lo by simp_all
  have s: "sorted (map fst ?es)" using srt mf by simp
  have tw: "takeWhile (\<lambda>x. x < ?b) ?cols = map fst (takeWhile (\<lambda>e. fst e < ?b) ?es)"
    using takeWhile_map[of "\<lambda>x. x < ?b" fst ?es] mf by (simp add: comp_def)
  then have c: "length (takeWhile (\<lambda>e. fst e < ?b) ?es) = ?c" by simp
  have t: "takeWhile (\<lambda>e. fst e < ?b) ?es = take ?c ?es"
    using takeWhile_eq_take[of "\<lambda>e. fst e < ?b" ?es] c by simp
  have d: "dropWhile (\<lambda>e. fst e < ?b) ?es = drop ?c ?es"
    using dropWhile_eq_drop[of "\<lambda>e. fst e < ?b" ?es] c by simp
  have e: "expected_row m i = take ?c ?es @ diag_entries m i @ drop ?c ?es"
    unfolding expected_row_def offd_entries_def
    using sorted_filter_takeWhile[OF s] sorted_filter_dropWhile[OF s] t d by simp
  have df: "map fst (diag_entries m i) = map (\<lambda>c. ?b + c) (row_slice (DiagI m) (DiagJ m) i)"
    "map snd (diag_entries m i) = row_slice (DiagI m) (DiagA m) i"
    unfolding diag_entries_def using ld by simp_all
  show "map fst (expected_row m i) = row_cols m i"
    unfolding e row_cols_def Let_def using mf df by (simp add: take_map[symmetric] drop_map[symmetric])
  show "map snd (expected_row m i) = row_vals m i"
    unfolding e row_vals_def Let_def using mf df by (simp add: take_map[symmetric] drop_map[symmetric])
qed

text \<open>
  C5, amended. For every input that satisfies the input contract and whose column map is
  non-decreasing, \<^verbatim>\<open>GetLocalA\<close> returns a fragment whose row pointer starts at 0, in which
  every row has as many entries as its diagonal and off-diagonal rows together, ordered
  as: the off-diagonal entries with global column below the column-range start, the
  diagonal entries at global column range start + local column, the remaining
  off-diagonal entries.
\<close>

theorem GetLocalA_row_order:
  assumes "input_contract m" "sorted (cmap m)"
    and "rows = nat \<bar>snd (RowPart m) - fst (RowPart m)\<bar>"
  shows "\<exists>I J Data. GetLocalA fresh m = Inr (I, J, Data)
     \<and> length I = rows + 1 \<and> I ! 0 = 0
     \<and> (\<forall>i<rows. I ! (i + 1) - I ! i
                    = (DiagI m ! (i + 1) - DiagI m ! i) + (OffI m ! (i + 1) - OffI m ! i)
                \<and> row_slice I J i = map fst (expected_row m i)
                \<and> row_slice I Data i = map snd (expected_row m i))"
proof -
  have D: "csr rows (DiagI m) (DiagJ m) (DiagA m)" and O: "csr rows (OffI m) (OffJ m) (OffA m)"
    and v: "list_all (\<lambda>c. 0 \<le> c \<and> c < int (length (cmap m))) (OffJ m)"
    and so: "list_all (\<lambda>i. sorted (row_slice (OffI m) (OffJ m) i)) [0..<rows]"
    using assms(1) unfolding input_contract_def Let_def assms(3)[symmetric] by simp_all
  from GetLocalA_rows[OF D O v assms(3)] obtain I J Data where
    r: "GetLocalA fresh m = Inr (I, J, Data)" "length I = rows + 1"
      "\<And>j. j \<le> rows \<Longrightarrow> I ! j = DiagI m ! j + OffI m ! j"
      "\<And>i. i < rows \<Longrightarrow> row_slice I J i = row_cols m i \<and> row_slice I Data i = row_vals m i"
    by blast
  have z: "I ! 0 = 0" using r(3)[of 0] D O by (simp add: csr_def)
  have rows: "\<forall>i<rows. I ! (i + 1) - I ! i
                    = (DiagI m ! (i + 1) - DiagI m ! i) + (OffI m ! (i + 1) - OffI m ! i)
                \<and> row_slice I J i = map fst (expected_row m i)
                \<and> row_slice I Data i = map snd (expected_row m i)"
  proof (intro allI impI)
    fix i assume i: "i < rows"
    have s1: "sorted (row_slice (OffI m) (OffJ m) i)" using so i by (simp add: list_all_iff)
    have "\<forall>x\<in>set (row_slice (OffI m) (OffJ m) i). 0 \<le> x \<and> x < int (length (cmap m))"
      using v unfolding row_slice_def list_all_iff by (meson in_set_dropD in_set_takeD)
    then have srt: "sorted (map (\<lambda>c. cmap m ! nat c) (row_slice (OffI m) (OffJ m) i))"
      using sorted_map_cmap[OF s1 assms(2)] by simp
    note e = expected_row_code[OF D O i srt]
    have "I ! (i + 1) - I ! i
        = (DiagI m ! (i + 1) - DiagI m ! i) + (OffI m ! (i + 1) - OffI m ! i)"
      using r(3)[of i] r(3)[of "i + 1"] i by simp
    then show "I ! (i + 1) - I ! i
                    = (DiagI m ! (i + 1) - DiagI m ! i) + (OffI m ! (i + 1) - OffI m ! i)
                \<and> row_slice I J i = map fst (expected_row m i)
                \<and> row_slice I Data i = map snd (expected_row m i)"
      using r(4)[OF i] e by simp
  qed
  from r(1,2) z rows show ?thesis by blast
qed

text \<open>
  C5, as stated, fails when the column map is not increasing. With \<open>cmap = [5, 1]\<close> and
  column-range start 3, the row with off-diagonal columns \<open>[0, 1]\<close> has an off-diagonal
  entry at global column 1, which the claim puts first; the first loop stops at global
  column 5, so the code writes the diagonal entry first: columns \<open>[3, 5, 1]\<close>, not
  \<open>[1, 3, 5]\<close>.
\<close>

theorem GetLocalA_row_order_counterexample:
  "input_contract unsorted_cmap_blocks
   \<and> GetLocalA 0 unsorted_cmap_blocks = Inr ([0, 3], [3, 5, 1], [10, 20, 21])
   \<and> map fst (expected_row unsorted_cmap_blocks 0) = [1, 3, 5]
   \<and> row_slice [0, 3] [3, 5, 1] 0 \<noteq> map fst (expected_row unsorted_cmap_blocks 0)"
  by code_simp

text \<open>An input with an increasing column map, and the fragment it gives.\<close>

theorem GetLocalA_row_order_witness:
  "input_contract example_blocks \<and> sorted (cmap example_blocks)
   \<and> GetLocalA 0 example_blocks
       = Inr ([0, 4, 7], [0, 2, 3, 5, 1, 3, 5], [20, 10, 11, 21, 22, 12, 23])
   \<and> row_slice [0, 4, 7] [0, 2, 3, 5, 1, 3, 5] 1 = map fst (expected_row example_blocks 1)"
proof -
  have h: "input_contract example_blocks" "sorted (cmap example_blocks)"
    "(2::nat) = nat \<bar>snd (RowPart example_blocks) - fst (RowPart example_blocks)\<bar>"
    by code_simp+
  have e: "GetLocalA 0 example_blocks
       = Inr ([0, 4, 7], [0, 2, 3, 5, 1, 3, 5], [20, 10, 11, 21, 22, 12, 23])"
    by code_simp
  from GetLocalA_row_order[OF h, of 0] obtain I J Data where
    "GetLocalA 0 example_blocks = Inr (I, J, Data)"
    "\<forall>i<2. row_slice I J i = map fst (expected_row example_blocks i)"
    by blast
  with e have "row_slice [0, 4, 7] [0, 2, 3, 5, 1, 3, 5] 1 = map fst (expected_row example_blocks 1)"
    by simp
  with h e show ?thesis by simp
qed

end
